theory Spec2Isabelle
  imports Complex_Main
begin

section \<open>The ALS optimizer of recommender\_systems.ipynb\<close>

text \<open>
  The notebook defines one function, \<^verbatim>\<open>als(ratings, users, items, reps=10)\<close>, on numpy
  arrays. A two-dimensional array is modelled as the list of its rows and a one-dimensional
  array as a list; numbers are reals. \<^verbatim>\<open>np.linalg.pinv\<close> belongs to numpy, not to the
  notebook, and is a parameter \<open>pinv\<close> of every definition that calls it. Every exception
  the function can raise is a value of \<open>error\<close>.

  A list of rows does not record the number of columns of an array with no rows. The model
  follows numpy on every array with at least one row and one column; on an empty
  \<open>ratings\<close> the notebook returns the product of two empty one-dimensional arrays where
  the model returns the empty list.
\<close>

datatype error = IndexError | ValueError | UnboundLocalError

type_synonym vec = "real list"
type_synonym matrix = "real list list"

definition bind_err :: "error + 'a \<Rightarrow> ('a \<Rightarrow> error + 'b) \<Rightarrow> error + 'b" where
  "bind_err m f = (case m of Inl e \<Rightarrow> Inl e | Inr x \<Rightarrow> f x)"

definition is_matrix :: "nat \<Rightarrow> nat \<Rightarrow> matrix \<Rightarrow> bool" where
  "is_matrix m n A = (length A = m \<and> list_all (\<lambda>row. length row = n) A)"

definition ncols :: "matrix \<Rightarrow> nat" where
  "ncols A = (case A of [] \<Rightarrow> 0 | row # _ \<Rightarrow> length row)"

text \<open>\<^verbatim>\<open>A.T\<close>: row \<open>j\<close> of the transpose is column \<open>j\<close> of \<open>A\<close>.\<close>

definition transpose_m :: "matrix \<Rightarrow> matrix" where
  "transpose_m A = map (\<lambda>j. map (\<lambda>row. row ! j) A) [0..<ncols A]"

text \<open>\<^verbatim>\<open>A[i]\<close> and \<^verbatim>\<open>A[i, j]\<close> with a non-negative index: out of range raises.\<close>

definition row_at :: "matrix \<Rightarrow> nat \<Rightarrow> error + vec" where
  "row_at A i = (if i < length A then Inr (A ! i) else Inl IndexError)"

definition elem_at :: "matrix \<Rightarrow> nat \<Rightarrow> nat \<Rightarrow> error + real" where
  "elem_at A i j =
     (if i < length A \<and> j < length (A ! i) then Inr (A ! i ! j) else Inl IndexError)"

definition vdot :: "vec \<Rightarrow> vec \<Rightarrow> real" where
  "vdot u v = sum_list (map2 (*) u v)"

text \<open>\<^verbatim>\<open>A.dot(v)\<close> for a 2-D \<open>A\<close> and a 1-D \<open>v\<close>, and \<^verbatim>\<open>A.dot(B)\<close> for 2-D
  \<open>A\<close> and \<open>B\<close>: numpy raises ValueError when the inner dimensions differ.\<close>

definition dot_mv :: "matrix \<Rightarrow> vec \<Rightarrow> error + vec" where
  "dot_mv A v =
     (if list_all (\<lambda>row. length row = length v) A
      then Inr (map (\<lambda>row. vdot row v) A) else Inl ValueError)"

definition dot_mm :: "matrix \<Rightarrow> matrix \<Rightarrow> error + matrix" where
  "dot_mm A B =
     (if list_all (\<lambda>row. length row = length B) A
      then Inr (map (\<lambda>row. map (\<lambda>col. vdot row col) (transpose_m B)) A)
      else Inl ValueError)"

text \<open>\<^verbatim>\<open>np.asarray\<close> of a Python list of 1-D arrays: a 2-D array when the rows have one
  length, ValueError on a ragged list.\<close>

definition asarray :: "vec list \<Rightarrow> error + matrix" where
  "asarray rows =
     (if list_all (\<lambda>row. length row = ncols rows) rows then Inr rows else Inl ValueError)"

text \<open>\<^verbatim>\<open>for i in idxs: body\<close> over a state, stopping at the first exception.\<close>

fun for_each :: "nat list \<Rightarrow> (nat \<Rightarrow> 's \<Rightarrow> error + 's) \<Rightarrow> 's \<Rightarrow> error + 's" where
  "for_each [] body s = Inr s"
| "for_each (i # idxs) body s =
     (case body i s of Inl e \<Rightarrow> Inl e | Inr s' \<Rightarrow> for_each idxs body s')"

text \<open>The first inner loop: \<^verbatim>\<open>user = np.linalg.pinv(items).dot(ratings[i])\<close> for
  \<^verbatim>\<open>i in range(len(ratings))\<close>, appended to \<^verbatim>\<open>new_users\<close>.\<close>

definition user_sweep :: "(matrix \<Rightarrow> matrix) \<Rightarrow> matrix \<Rightarrow> matrix \<Rightarrow> error + vec list" where
  "user_sweep pinv ratings items =
     for_each [0..<length ratings]
       (\<lambda>i new_users.
          bind_err (row_at ratings i) (\<lambda>ri.
          bind_err (dot_mv (pinv items) ri) (\<lambda>user.
          Inr (new_users @ [user]))))
       []"

text \<open>The second inner loop: \<^verbatim>\<open>item = np.linalg.pinv(new_users).dot(ratings_cols[i])\<close>,
  again for \<^verbatim>\<open>i in range(len(ratings))\<close>.\<close>

definition item_sweep ::
  "(matrix \<Rightarrow> matrix) \<Rightarrow> matrix \<Rightarrow> matrix \<Rightarrow> matrix \<Rightarrow> error + vec list" where
  "item_sweep pinv ratings ratings_cols new_users =
     for_each [0..<length ratings]
       (\<lambda>i new_items.
          bind_err (row_at ratings_cols i) (\<lambda>ci.
          bind_err (dot_mv (pinv new_users) ci) (\<lambda>item.
          Inr (new_items @ [item]))))
       []"

text \<open>The error loops: \<^verbatim>\<open>err += (ratings[i, j] - guess[i, j])**2\<close> under
  \<^verbatim>\<open>if ratings[i, j] != 0\<close>, for \<^verbatim>\<open>j in range(len(ratings[i]))\<close> inside
  \<^verbatim>\<open>i in range(len(ratings))\<close>.\<close>

definition masked_err :: "matrix \<Rightarrow> matrix \<Rightarrow> error + real" where
  "masked_err ratings guess =
     for_each [0..<length ratings]
       (\<lambda>i err.
          bind_err (row_at ratings i) (\<lambda>ri.
          for_each [0..<length ri]
            (\<lambda>j err.
               bind_err (elem_at ratings i j) (\<lambda>rij.
               if rij \<noteq> 0
               then bind_err (elem_at guess i j) (\<lambda>gij. Inr (err + (rij - gij)\<^sup>2))
               else Inr err))
            err))
       0"

text \<open>The local variables that live across iterations of the outer loop; \<open>None\<close> is a
  name not bound yet. \<open>printed\<close> collects what \<^verbatim>\<open>print(err)\<close> has written.\<close>

record als_vars =
  v_items :: matrix
  v_new_users :: "matrix option"
  v_new_items :: "matrix option"
  printed :: "real list"

definition als_body ::
  "(matrix \<Rightarrow> matrix) \<Rightarrow> matrix \<Rightarrow> matrix \<Rightarrow> als_vars \<Rightarrow> error + als_vars" where
  "als_body pinv ratings ratings_cols s =
     bind_err (user_sweep pinv ratings (v_items s)) (\<lambda>us.
     bind_err (asarray us) (\<lambda>nu.
     bind_err (item_sweep pinv ratings ratings_cols nu) (\<lambda>is.
     bind_err (asarray is) (\<lambda>ni.
     bind_err (dot_mm nu (transpose_m ni)) (\<lambda>guess.
     bind_err (masked_err ratings guess) (\<lambda>err.
     Inr (s\<lparr>v_items := ni, v_new_users := Some nu, v_new_items := Some ni,
             printed := printed s @ [err]\<rparr>)))))))"

text \<open>\<^verbatim>\<open>for _ in range(reps)\<close>. An exception ends the run; what was printed before it
  stays printed.\<close>

fun als_loop ::
  "(matrix \<Rightarrow> matrix) \<Rightarrow> matrix \<Rightarrow> matrix \<Rightarrow> nat \<Rightarrow> als_vars \<Rightarrow> real list \<times> (error + als_vars)"
  where
  "als_loop pinv ratings ratings_cols 0 s = (printed s, Inr s)"
| "als_loop pinv ratings ratings_cols (Suc n) s =
     (case als_body pinv ratings ratings_cols s of
        Inl e \<Rightarrow> (printed s, Inl e)
      | Inr s' \<Rightarrow> als_loop pinv ratings ratings_cols n s')"

text \<open>The function itself: the printed errors and either the exception or the returned
  array \<^verbatim>\<open>new_users.dot(new_items.T)\<close>. With \<^verbatim>\<open>reps <= 0\<close> the loop body never runs
  and the return statement reads an unbound local.\<close>

definition als ::
  "(matrix \<Rightarrow> matrix) \<Rightarrow> matrix \<Rightarrow> matrix \<Rightarrow> matrix \<Rightarrow> int \<Rightarrow> real list \<times> (error + matrix)"
  where
  "als pinv ratings users items reps =
     (let ratings_cols = transpose_m ratings in
      case als_loop pinv ratings ratings_cols (nat reps)
             \<lparr>v_items = items, v_new_users = None, v_new_items = None, printed = []\<rparr> of
        (out, Inl e) \<Rightarrow> (out, Inl e)
      | (out, Inr s) \<Rightarrow>
          (case v_new_users s of
             None \<Rightarrow> (out, Inl UnboundLocalError)
           | Some nu \<Rightarrow>
               (case v_new_items s of
                  None \<Rightarrow> (out, Inl UnboundLocalError)
                | Some ni \<Rightarrow> (out, dot_mm nu (transpose_m ni)))))"

section \<open>Notions the statements use\<close>

text \<open>One solve of a sweep: the matrix \<open>X\<close> that \<open>pinv\<close> returned, applied to row \<open>i\<close> of
  \<open>M\<close> (\<^verbatim>\<open>X.dot(M[i])\<close>).\<close>

definition solve :: "matrix \<Rightarrow> matrix \<Rightarrow> nat \<Rightarrow> error + vec" where
  "solve X M i = bind_err (row_at M i) (dot_mv X)"

text \<open>What one pass of the innermost loop body adds to \<^verbatim>\<open>err\<close>, and what one row adds.\<close>

definition entry_err :: "matrix \<Rightarrow> matrix \<Rightarrow> nat \<Rightarrow> nat \<Rightarrow> error + real" where
  "entry_err ratings guess i j =
     bind_err (elem_at ratings i j) (\<lambda>rij.
       if rij \<noteq> 0 then bind_err (elem_at guess i j) (\<lambda>gij. Inr ((rij - gij)\<^sup>2)) else Inr 0)"

definition row_err :: "matrix \<Rightarrow> matrix \<Rightarrow> nat \<Rightarrow> error + real" where
  "row_err ratings guess i =
     bind_err (row_at ratings i) (\<lambda>ri.
       for_each [0..<length ri]
         (\<lambda>j err. bind_err (entry_err ratings guess i j) (\<lambda>x. Inr (err + x))) 0)"

definition sq_err :: "matrix \<Rightarrow> matrix \<Rightarrow> nat \<Rightarrow> nat \<Rightarrow> real" where
  "sq_err ratings guess i j =
     (if ratings ! i ! j \<noteq> 0 then (ratings ! i ! j - guess ! i ! j)\<^sup>2 else 0)"

text \<open>The positions of the observed ratings: the entries of \<open>ratings\<close> that are not the
  sentinel 0.\<close>

definition observed :: "matrix \<Rightarrow> (nat \<times> nat) set" where
  "observed ratings =
     {(i, j). i < length ratings \<and> j < length (ratings ! i) \<and> ratings ! i ! j \<noteq> 0}"

section \<open>Example inputs\<close>

text \<open>
  The pseudo-inverse of a matrix whose rows are orthogonal to each other is its transpose
  with every column divided by the squared norm of the row it came from (a zero row gives
  a zero column: \<open>x / 0 = 0\<close> in HOL). The examples apply \<open>pinv_orth\<close> to such matrices
  only, and \<open>is_pinv\<close>, the four Penrose equations, is checked for each of them below.
\<close>

definition pinv_orth :: "matrix \<Rightarrow> matrix" where
  "pinv_orth A = transpose_m (map (\<lambda>row. map (\<lambda>x. x / vdot row row) row) A)"

definition is_pinv :: "matrix \<Rightarrow> matrix \<Rightarrow> bool" where
  "is_pinv A X =
     (case (dot_mm A X, dot_mm X A) of
        (Inr AX, Inr XA) \<Rightarrow>
          dot_mm AX A = Inr A \<and> dot_mm XA X = Inr X \<and>
          transpose_m AX = AX \<and> transpose_m XA = XA
      | _ \<Rightarrow> False)"

text \<open>The shape of a pseudo-inverse: \<open>k\<close> by \<open>n\<close> for a matrix that is \<open>n\<close> by \<open>k\<close>.\<close>

definition pinv_shape :: "(matrix \<Rightarrow> matrix) \<Rightarrow> bool" where
  "pinv_shape pinv = (\<forall>A n k. 0 < n \<and> 0 < k \<and> is_matrix n k A \<longrightarrow> is_matrix k n (pinv A))"

text \<open>The scenario of the specification: 2 users, 5 items, 10 latent features.\<close>

definition R5 :: matrix where
  "R5 = [[0,1,0,0,4],[0,0,0,5,0]]"

definition Q5 :: matrix where
  "Q5 = [[1,0,0,0,0,0,0,0,0,0],[0,1,0,0,0,0,0,0,0,0],[0,0,1,0,0,0,0,0,0,0],
         [0,0,0,1,0,0,0,0,0,0],[0,0,0,0,1,0,0,0,0,0]]"

definition P5 :: matrix where
  "P5 = [[0,1,0,0,4,0,0,0,0,0],[0,0,0,5,0,0,0,0,0,0]]"

text \<open>2 users and 3 items with 2 latent features, and 3 users and 2 items.\<close>

definition R23 :: matrix where
  "R23 = [[1,0,0],[0,1,0]]"

definition Q23 :: matrix where
  "Q23 = [[1,0],[0,1],[0,0]]"

definition I2 :: matrix where
  "I2 = [[1,0],[0,1]]"

definition R32 :: matrix where
  "R32 = [[1,0],[0,1],[0,0]]"

text \<open>Square inputs: 2 users and 2 items with 1 latent feature, with two initial item
  matrices, and the user factors that the second one leads to.\<close>

definition R2 :: matrix where
  "R2 = [[1,0],[0,2]]"

definition Q2 :: matrix where
  "Q2 = [[1],[0]]"

definition Q2b :: matrix where
  "Q2b = [[0],[1]]"

definition P2b :: matrix where
  "P2b = [[0],[2]]"

section \<open>The same function over a store of array buffers\<close>

text \<open>
  A numpy array is an object with a buffer. \<^verbatim>\<open>ratings.T\<close> and an index expression are
  views on the buffer of their base array; \<^verbatim>\<open>np.linalg.pinv\<close>, \<^verbatim>\<open>dot\<close> and
  \<^verbatim>\<open>np.asarray\<close> return arrays with buffers of their own. The store is the list of the
  buffers allocated so far, and an array is the address of its buffer with a flag for a
  transposed view. \<^verbatim>\<open>als\<close> has no subscripted assignment and calls no in-place
  operation of numpy (\<^verbatim>\<open>err += ...\<close> rebinds a Python number, \<^verbatim>\<open>append\<close> extends a
  list the function has just made), so allocation is the only operation on the store.
  One-dimensional arrays (a row read by index, the result of a matrix-vector product) are
  consumed where they are made and stay values. A Python name always refers to an array
  that exists: the statements about \<open>als_st\<close> take the addresses of its arguments to be
  below the length of the store.
\<close>

type_synonym store = "matrix list"

record ndarray =
  base :: nat
  transposed :: bool

definition load :: "store \<Rightarrow> ndarray \<Rightarrow> matrix" where
  "load st a = (if transposed a then transpose_m (st ! base a) else st ! base a)"

definition view_T :: "ndarray \<Rightarrow> ndarray" where
  "view_T a = a\<lparr>transposed := \<not> transposed a\<rparr>"

definition new_array :: "matrix \<Rightarrow> store \<Rightarrow> store \<times> (error + ndarray)" where
  "new_array A st = (st @ [A], Inr \<lparr>base = length st, transposed = False\<rparr>)"

definition st_bind ::
  "(store \<Rightarrow> store \<times> (error + 'a)) \<Rightarrow> ('a \<Rightarrow> store \<Rightarrow> store \<times> (error + 'b)) \<Rightarrow>
   store \<Rightarrow> store \<times> (error + 'b)" where
  "st_bind m f st = (case m st of (st', Inl e) \<Rightarrow> (st', Inl e) | (st', Inr x) \<Rightarrow> f x st')"

definition st_pure :: "error + 'a \<Rightarrow> store \<Rightarrow> store \<times> (error + 'a)" where
  "st_pure r st = (st, r)"

definition np_len :: "ndarray \<Rightarrow> store \<Rightarrow> nat" where
  "np_len a st = length (load st a)"

definition np_row :: "ndarray \<Rightarrow> nat \<Rightarrow> store \<Rightarrow> store \<times> (error + vec)" where
  "np_row a i st = st_pure (row_at (load st a) i) st"

definition np_elem :: "ndarray \<Rightarrow> nat \<Rightarrow> nat \<Rightarrow> store \<Rightarrow> store \<times> (error + real)" where
  "np_elem a i j st = st_pure (elem_at (load st a) i j) st"

definition np_pinv :: "(matrix \<Rightarrow> matrix) \<Rightarrow> ndarray \<Rightarrow> store \<Rightarrow> store \<times> (error + ndarray)" where
  "np_pinv pinv a st = new_array (pinv (load st a)) st"

definition np_dot_mv :: "ndarray \<Rightarrow> vec \<Rightarrow> store \<Rightarrow> store \<times> (error + vec)" where
  "np_dot_mv a v st = st_pure (dot_mv (load st a) v) st"

definition np_dot_mm :: "ndarray \<Rightarrow> ndarray \<Rightarrow> store \<Rightarrow> store \<times> (error + ndarray)" where
  "np_dot_mm a b st =
     (case dot_mm (load st a) (load st b) of Inl e \<Rightarrow> (st, Inl e) | Inr G \<Rightarrow> new_array G st)"

definition np_asarray :: "vec list \<Rightarrow> store \<Rightarrow> store \<times> (error + ndarray)" where
  "np_asarray rows st =
     (case asarray rows of Inl e \<Rightarrow> (st, Inl e) | Inr A \<Rightarrow> new_array A st)"

fun st_for_each ::
  "nat list \<Rightarrow> (nat \<Rightarrow> 's \<Rightarrow> store \<Rightarrow> store \<times> (error + 's)) \<Rightarrow> 's \<Rightarrow> store \<Rightarrow>
   store \<times> (error + 's)" where
  "st_for_each [] body s st = (st, Inr s)"
| "st_for_each (i # idxs) body s st =
     (case body i s st of
        (st', Inl e) \<Rightarrow> (st', Inl e)
      | (st', Inr s') \<Rightarrow> st_for_each idxs body s' st')"

definition user_sweep_st ::
  "(matrix \<Rightarrow> matrix) \<Rightarrow> ndarray \<Rightarrow> ndarray \<Rightarrow> store \<Rightarrow> store \<times> (error + vec list)" where
  "user_sweep_st pinv ratings items st =
     st_for_each [0..<np_len ratings st]
       (\<lambda>i new_users.
          st_bind (np_pinv pinv items) (\<lambda>x.
          st_bind (np_row ratings i) (\<lambda>ri.
          st_bind (np_dot_mv x ri) (\<lambda>user.
          st_pure (Inr (new_users @ [user]))))))
       [] st"

definition item_sweep_st ::
  "(matrix \<Rightarrow> matrix) \<Rightarrow> ndarray \<Rightarrow> ndarray \<Rightarrow> ndarray \<Rightarrow> store \<Rightarrow>
   store \<times> (error + vec list)" where
  "item_sweep_st pinv ratings ratings_cols new_users st =
     st_for_each [0..<np_len ratings st]
       (\<lambda>i new_items.
          st_bind (np_pinv pinv new_users) (\<lambda>x.
          st_bind (np_row ratings_cols i) (\<lambda>ci.
          st_bind (np_dot_mv x ci) (\<lambda>item.
          st_pure (Inr (new_items @ [item]))))))
       [] st"

definition masked_err_st :: "ndarray \<Rightarrow> ndarray \<Rightarrow> store \<Rightarrow> store \<times> (error + real)" where
  "masked_err_st ratings guess st =
     st_for_each [0..<np_len ratings st]
       (\<lambda>i err.
          st_bind (np_row ratings i) (\<lambda>ri.
          st_for_each [0..<length ri]
            (\<lambda>j err.
               st_bind (np_elem ratings i j) (\<lambda>rij.
               if rij \<noteq> 0
               then st_bind (np_elem guess i j) (\<lambda>gij. st_pure (Inr (err + (rij - gij)\<^sup>2)))
               else st_pure (Inr err)))
            err))
       0 st"

record als_refs =
  r_items :: ndarray
  r_new_users :: "ndarray option"
  r_new_items :: "ndarray option"
  r_printed :: "real list"

definition als_body_st ::
  "(matrix \<Rightarrow> matrix) \<Rightarrow> ndarray \<Rightarrow> ndarray \<Rightarrow> als_refs \<Rightarrow> store \<Rightarrow>
   store \<times> (error + als_refs)" where
  "als_body_st pinv ratings ratings_cols s =
     st_bind (user_sweep_st pinv ratings (r_items s)) (\<lambda>us.
     st_bind (np_asarray us) (\<lambda>nu.
     st_bind (item_sweep_st pinv ratings ratings_cols nu) (\<lambda>is.
     st_bind (np_asarray is) (\<lambda>ni.
     st_bind (np_dot_mm nu (view_T ni)) (\<lambda>guess.
     st_bind (masked_err_st ratings guess) (\<lambda>err.
     st_pure (Inr (s\<lparr>r_items := ni, r_new_users := Some nu, r_new_items := Some ni,
                      r_printed := r_printed s @ [err]\<rparr>))))))))"

fun als_loop_st ::
  "(matrix \<Rightarrow> matrix) \<Rightarrow> ndarray \<Rightarrow> ndarray \<Rightarrow> nat \<Rightarrow> als_refs \<Rightarrow> store \<Rightarrow>
   store \<times> real list \<times> (error + als_refs)" where
  "als_loop_st pinv ratings ratings_cols 0 s st = (st, r_printed s, Inr s)"
| "als_loop_st pinv ratings ratings_cols (Suc n) s st =
     (case als_body_st pinv ratings ratings_cols s st of
        (st', Inl e) \<Rightarrow> (st', r_printed s, Inl e)
      | (st', Inr s') \<Rightarrow> als_loop_st pinv ratings ratings_cols n s' st')"

definition als_st ::
  "(matrix \<Rightarrow> matrix) \<Rightarrow> ndarray \<Rightarrow> ndarray \<Rightarrow> ndarray \<Rightarrow> int \<Rightarrow> store \<Rightarrow>
   store \<times> real list \<times> (error + ndarray)" where
  "als_st pinv ratings users items reps st =
     (let ratings_cols = view_T ratings in
      case als_loop_st pinv ratings ratings_cols (nat reps)
             \<lparr>r_items = items, r_new_users = None, r_new_items = None, r_printed = []\<rparr> st of
        (st', out, Inl e) \<Rightarrow> (st', out, Inl e)
      | (st', out, Inr s) \<Rightarrow>
          (case r_new_users s of
             None \<Rightarrow> (st', out, Inl UnboundLocalError)
           | Some nu \<Rightarrow>
               (case r_new_items s of
                  None \<Rightarrow> (st', out, Inl UnboundLocalError)
                | Some ni \<Rightarrow>
                    (case np_dot_mm nu (view_T ni) st' of (st'', res) \<Rightarrow> (st'', out, res)))))"

text \<open>What the store functions are proved to do: they only append buffers
  (\<open>extends\<close>), and their results are the results of the functions on values
  (\<open>refines\<close>), an array standing for a matrix when its buffer holds it (\<open>fresh_at\<close>).\<close>

definition extends :: "(store \<Rightarrow> store \<times> 'r) \<Rightarrow> bool" where
  "extends m = (\<forall>st. \<exists>new r. m st = (st @ new, r))"

definition fresh_at :: "store \<Rightarrow> ndarray \<Rightarrow> matrix \<Rightarrow> bool" where
  "fresh_at st a A = (base a < length st \<and> \<not> transposed a \<and> st ! base a = A)"

definition refs_rel :: "store \<Rightarrow> als_refs \<Rightarrow> als_vars \<Rightarrow> bool" where
  "refs_rel st sr sp =
     (base (r_items sr) < length st \<and> load st (r_items sr) = v_items sp \<and>
      rel_option (fresh_at st) (r_new_users sr) (v_new_users sp) \<and>
      rel_option (fresh_at st) (r_new_items sr) (v_new_items sp) \<and>
      r_printed sr = printed sp)"

definition refines ::
  "store \<Rightarrow> (store \<Rightarrow> store \<times> (error + 'a)) \<Rightarrow> (store \<Rightarrow> 'a \<Rightarrow> 'b \<Rightarrow> bool) \<Rightarrow> error + 'b \<Rightarrow> bool" where
  "refines st m Rel p = (\<exists>new r. m st = (st @ new, r) \<and> rel_sum (=) (Rel (st @ new)) r p)"

text \<open>A store with the ratings \<open>R2\<close> at address 0, initial user factors at 1 and the item
  factors \<open>Q2\<close> at 2.\<close>

definition store0 :: store where "store0 = [R2, I2, Q2]"
definition arr :: "nat \<Rightarrow> ndarray" where "arr a = \<lparr>base = a, transposed = False\<rparr>"

text \<open>Another store: the same ratings at address 3 and item factors at 0, other
  buffers between them.\<close>

definition store1 :: store where "store1 = [Q2, [[9]], I2, R2]"

section \<open>Exceptions and loops\<close>

lemma bind_err_simps [simp]:
  "bind_err (Inl e) f = Inl e" "bind_err (Inr x) f = f x"
  by (simp_all add: bind_err_def)

lemma bind_err_Inr_iff: "bind_err m f = Inr y \<longleftrightarrow> (\<exists>x. m = Inr x \<and> f x = Inr y)"
  by (cases m) simp_all

lemma bind_err_assoc:
  "bind_err m (\<lambda>v. bind_err (f v) g) = bind_err (bind_err m f) g"
  by (cases m) simp_all

lemma for_each_collect:
  "for_each idxs (\<lambda>i acc. bind_err (f i) (\<lambda>u. Inr (acc @ [u]))) acc0 = Inr out
   \<longleftrightarrow> (\<exists>us. map f idxs = map Inr us \<and> out = acc0 @ us)"
proof (induction idxs arbitrary: acc0)
  case Nil
  then show ?case by auto
next
  case (Cons i idxs)
  show ?case
  proof (cases "f i")
    case (Inl e)
    then show ?thesis by (auto simp: map_eq_Cons_conv)
  next
    case (Inr u)
    then show ?thesis by (auto simp: Cons.IH map_eq_Cons_conv Cons_eq_map_conv)
  qed
qed

lemma map_eq_map_Inr:
  "map f idxs = map Inr out \<longleftrightarrow> length out = length idxs \<and> (\<forall>n<length idxs. f (idxs ! n) = Inr (out ! n))"
  by (auto simp: list_eq_iff_nth_eq)

section \<open>The two sweeps\<close>

lemma solve_Inr_iff:
  "solve X M i = Inr u \<longleftrightarrow>
     i < length M \<and> list_all (\<lambda>row. length row = length (M ! i)) X \<and>
     u = map (\<lambda>row. vdot row (M ! i)) X"
  by (auto simp: solve_def row_at_def dot_mv_def)

lemma user_sweep_solve:
  "user_sweep pinv ratings items =
     for_each [0..<length ratings]
       (\<lambda>i acc. bind_err (solve (pinv items) ratings i) (\<lambda>u. Inr (acc @ [u]))) []"
  by (simp add: user_sweep_def solve_def bind_err_assoc)

lemma user_sweep_Inr_iff:
  "user_sweep pinv ratings items = Inr out \<longleftrightarrow>
     (map (solve (pinv items) ratings) [0..<length ratings] = map Inr out)"
  by (simp add: user_sweep_solve for_each_collect)

lemma user_sweep_Inr_nth:
  "user_sweep pinv ratings items = Inr out \<longleftrightarrow>
     length out = length ratings \<and>
     (\<forall>i<length ratings. solve (pinv items) ratings i = Inr (out ! i))"
  by (simp add: user_sweep_Inr_iff map_eq_map_Inr)

lemma item_sweep_solve:
  "item_sweep pinv ratings ratings_cols nu =
     for_each [0..<length ratings]
       (\<lambda>i acc. bind_err (solve (pinv nu) ratings_cols i) (\<lambda>u. Inr (acc @ [u]))) []"
  by (simp add: item_sweep_def solve_def bind_err_assoc)

lemma item_sweep_Inr_nth:
  "item_sweep pinv ratings ratings_cols nu = Inr out \<longleftrightarrow>
     length out = length ratings \<and>
     (\<forall>i<length ratings. solve (pinv nu) ratings_cols i = Inr (out ! i))"
  by (simp add: item_sweep_solve for_each_collect map_eq_map_Inr)

lemma vdot_sum:
  "length u = length v \<Longrightarrow> vdot u v = (\<Sum>j<length v. u ! j * v ! j)"
  by (simp add: vdot_def sum_list_sum_nth atLeast0LessThan)

lemma vdot_zero:
  "list_all (\<lambda>x. x = 0) v \<Longrightarrow> vdot u v = 0"
proof (induction u arbitrary: v)
  case Nil
  then show ?case by (simp add: vdot_def)
next
  case (Cons a u)
  then show ?case by (cases v) (simp_all add: vdot_def)
qed

lemma is_matrix_nth: "is_matrix m n A \<Longrightarrow> i < m \<Longrightarrow> length (A ! i) = n"
  by (simp add: is_matrix_def list_all_length)

lemma is_matrix_iff:
  "is_matrix m n A \<longleftrightarrow> length A = m \<and> (\<forall>i<m. length (A ! i) = n)"
  by (auto simp: is_matrix_def list_all_length)

lemma user_sweep_rows:
  assumes R: "is_matrix m r ratings" and X: "is_matrix k r (pinv items)"
  shows "user_sweep pinv ratings items =
           Inr (map (\<lambda>row. map (\<lambda>xrow. vdot xrow row) (pinv items)) ratings)"
proof -
  have len: "length ratings = m" using R by (simp add: is_matrix_def)
  have rows: "\<And>i. i < m \<Longrightarrow> length (ratings ! i) = r" using R by (rule is_matrix_nth)
  have xrows: "list_all (\<lambda>xrow. length xrow = r) (pinv items)" using X by (simp add: is_matrix_def)
  show ?thesis
    using len rows xrows by (simp add: user_sweep_Inr_nth solve_Inr_iff)
qed

lemma als_body_new_users:
  "als_body pinv ratings ratings_cols s = Inr s' \<Longrightarrow>
     user_sweep pinv ratings (v_items s) = Inr P' \<Longrightarrow> v_new_users s' = Some P'"
  by (auto simp: als_body_def bind_err_Inr_iff asarray_def split: if_splits)

text \<open>When the rows of \<open>pinv items\<close> do not have the length of the rating rows, the first
  \<^verbatim>\<open>dot\<close> of the sweep raises.\<close>

lemma user_sweep_raises:
  assumes R: "is_matrix m r ratings" and m: "0 < m"
    and X: "\<not> list_all (\<lambda>xrow. length xrow = r) (pinv items)"
  shows "user_sweep pinv ratings items = Inl ValueError"
proof -
  have len: "length ratings = m" using R by (simp add: is_matrix_def)
  have r0: "length (ratings ! 0) = r" using R m by (rule is_matrix_nth)
  have idx: "[0..<length ratings] = 0 # [1..<m]"
    using m len by (simp add: upt_conv_Cons)
  show ?thesis
    using X r0 m len unfolding user_sweep_def idx
    by (simp add: row_at_def dot_mv_def)
qed

section \<open>The error loops\<close>

lemma for_each_sum:
  "for_each idxs (\<lambda>j acc. bind_err (t j) (\<lambda>x. Inr (acc + x))) (a::real) = Inr out
   \<longleftrightarrow> (\<exists>xs. map t idxs = map Inr xs \<and> out = a + sum_list xs)"
proof (induction idxs arbitrary: a)
  case Nil
  then show ?case by auto
next
  case (Cons i idxs)
  show ?case
  proof (cases "t i")
    case (Inl e)
    then show ?thesis by (auto simp: map_eq_Cons_conv)
  next
    case (Inr u)
    then show ?thesis by (auto simp: Cons.IH map_eq_Cons_conv Cons_eq_map_conv add.assoc)
  qed
qed

lemma for_each_shift:
  "for_each idxs (\<lambda>j acc. bind_err (t j) (\<lambda>x. Inr (acc + x))) (a::real) =
     bind_err (for_each idxs (\<lambda>j acc. bind_err (t j) (\<lambda>x. Inr (acc + x))) 0) (\<lambda>x. Inr (a + x))"
proof (induction idxs arbitrary: a)
  case Nil
  then show ?case by simp
next
  case (Cons i idxs)
  show ?case
  proof (cases "t i")
    case (Inl e)
    then show ?thesis by simp
  next
    case (Inr u)
    show ?thesis
      using Cons.IH[of "a + u"] Cons.IH[of u]
      by (cases "for_each idxs (\<lambda>j acc. bind_err (t j) (\<lambda>x. Inr (acc + x))) 0") (simp_all add: Inr add.assoc)
  qed
qed

lemma entry_body:
  "bind_err (elem_at ratings i j) (\<lambda>rij.
       if rij \<noteq> 0 then bind_err (elem_at guess i j) (\<lambda>gij. Inr (err + (rij - gij)\<^sup>2)) else Inr err)
   = bind_err (entry_err ratings guess i j) (\<lambda>x. Inr (err + x))"
  by (cases "elem_at ratings i j"; cases "elem_at guess i j") (simp_all add: entry_err_def)

lemma masked_err_rows:
  "masked_err ratings guess =
     for_each [0..<length ratings]
       (\<lambda>i err. bind_err (row_err ratings guess i) (\<lambda>x. Inr (err + x))) 0"
proof -
  have "bind_err (row_at ratings i) (\<lambda>ri.
          for_each [0..<length ri]
            (\<lambda>j err. bind_err (entry_err ratings guess i j) (\<lambda>x. Inr (err + x))) err)
        = bind_err (row_err ratings guess i) (\<lambda>x. Inr (err + x))" for i err
    by (cases "row_at ratings i") (simp_all add: row_err_def for_each_shift[of _ _ err])
  then show ?thesis
    by (simp add: masked_err_def entry_body)
qed

lemma entry_err_Inr_iff:
  "i < length ratings \<Longrightarrow> j < length (ratings ! i) \<Longrightarrow>
   entry_err ratings guess i j = Inr x \<longleftrightarrow>
     (if ratings ! i ! j \<noteq> 0
      then i < length guess \<and> j < length (guess ! i) \<and> x = (ratings ! i ! j - guess ! i ! j)\<^sup>2
      else x = 0)"
  by (auto simp: entry_err_def elem_at_def)

lemma row_err_Inr_iff:
  assumes "i < length ratings"
  shows "row_err ratings guess i = Inr x \<longleftrightarrow>
     (\<forall>j<length (ratings ! i). ratings ! i ! j \<noteq> 0 \<longrightarrow> i < length guess \<and> j < length (guess ! i)) \<and>
     x = (\<Sum>j<length (ratings ! i). sq_err ratings guess i j)"
    (is "?L \<longleftrightarrow> ?C \<and> ?V")
proof
  assume ?L
  then obtain xs where xs: "map (entry_err ratings guess i) [0..<length (ratings ! i)] = map Inr xs"
    and x: "x = sum_list xs"
    using assms by (auto simp: row_err_def row_at_def for_each_sum)
  from xs have len: "length xs = length (ratings ! i)"
    and nth: "\<And>j. j < length (ratings ! i) \<Longrightarrow> entry_err ratings guess i j = Inr (xs ! j)"
    by (auto simp: map_eq_map_Inr)
  have C: ?C
    using nth assms by (auto simp: entry_err_Inr_iff split: if_splits)
  have "xs ! j = sq_err ratings guess i j" if "j < length (ratings ! i)" for j
    using nth[OF that] assms that by (auto simp: entry_err_Inr_iff sq_err_def split: if_splits)
  then have "sum_list xs = (\<Sum>j<length (ratings ! i). sq_err ratings guess i j)"
    using len by (simp add: sum_list_sum_nth atLeast0LessThan)
  with C x show "?C \<and> ?V" by simp
next
  assume R: "?C \<and> ?V"
  have "map (entry_err ratings guess i) [0..<length (ratings ! i)]
        = map Inr (map (sq_err ratings guess i) [0..<length (ratings ! i)])"
    using R assms by (auto simp: entry_err_Inr_iff sq_err_def)
  moreover have "x = sum_list (map (sq_err ratings guess i) [0..<length (ratings ! i)])"
    using R by (simp add: sum_list_sum_nth atLeast0LessThan interv_sum_list_conv_sum_set_nat)
  ultimately have "\<exists>xs. map (entry_err ratings guess i) [0..<length (ratings ! i)] = map Inr xs \<and>
      x = sum_list xs"
    by blast
  then show ?L
    using assms by (simp add: row_err_def row_at_def for_each_sum)
qed

lemma masked_err_Inr_iff:
  "masked_err ratings guess = Inr e \<longleftrightarrow>
     (\<forall>i<length ratings. \<forall>j<length (ratings ! i).
         ratings ! i ! j \<noteq> 0 \<longrightarrow> i < length guess \<and> j < length (guess ! i)) \<and>
     e = (\<Sum>i<length ratings. \<Sum>j<length (ratings ! i). sq_err ratings guess i j)"
    (is "?L \<longleftrightarrow> ?C \<and> ?V")
proof
  assume ?L
  then obtain xs where xs: "map (row_err ratings guess) [0..<length ratings] = map Inr xs"
    and e: "e = sum_list xs"
    by (auto simp: masked_err_rows for_each_sum)
  from xs have len: "length xs = length ratings"
    and nth: "\<And>i. i < length ratings \<Longrightarrow> row_err ratings guess i = Inr (xs ! i)"
    by (auto simp: map_eq_map_Inr)
  have C: ?C
    using nth by (simp add: row_err_Inr_iff)
  have "xs ! i = (\<Sum>j<length (ratings ! i). sq_err ratings guess i j)" if "i < length ratings" for i
    using nth[OF that] that by (simp add: row_err_Inr_iff)
  then have "sum_list xs = (\<Sum>i<length ratings. \<Sum>j<length (ratings ! i). sq_err ratings guess i j)"
    using len by (simp add: sum_list_sum_nth atLeast0LessThan)
  with C e show "?C \<and> ?V" by simp
next
  assume R: "?C \<and> ?V"
  define f where "f i = (\<Sum>j<length (ratings ! i). sq_err ratings guess i j)" for i
  have "map (row_err ratings guess) [0..<length ratings] = map Inr (map f [0..<length ratings])"
    using R by (simp add: row_err_Inr_iff f_def)
  moreover have "e = sum_list (map f [0..<length ratings])"
    using R by (simp add: f_def interv_sum_list_conv_sum_set_nat atLeast0LessThan)
  ultimately have "\<exists>xs. map (row_err ratings guess) [0..<length ratings] = map Inr xs \<and>
      e = sum_list xs"
    by blast
  then show ?L
    by (simp add: masked_err_rows for_each_sum)
qed

lemma masked_sum_observed:
  "(\<Sum>i<length ratings. \<Sum>j<length (ratings ! i). sq_err ratings guess i j) =
   (\<Sum>(i, j)\<in>observed ratings. (ratings ! i ! j - guess ! i ! j)\<^sup>2)"
proof -
  have "(\<Sum>j<length (ratings ! i). sq_err ratings guess i j) =
        (\<Sum>j\<in>{j \<in> {..<length (ratings ! i)}. ratings ! i ! j \<noteq> 0}. (ratings ! i ! j - guess ! i ! j)\<^sup>2)" for i
    unfolding sq_err_def by (rule sum.inter_filter[symmetric]) simp
  then have "(\<Sum>i<length ratings. \<Sum>j<length (ratings ! i). sq_err ratings guess i j) =
      (\<Sum>i<length ratings. \<Sum>j\<in>{j \<in> {..<length (ratings ! i)}. ratings ! i ! j \<noteq> 0}. (ratings ! i ! j - guess ! i ! j)\<^sup>2)"
    by simp
  also have "\<dots> = (\<Sum>(i, j)\<in>(SIGMA i:{..<length ratings}. {j \<in> {..<length (ratings ! i)}. ratings ! i ! j \<noteq> 0}).
        (ratings ! i ! j - guess ! i ! j)\<^sup>2)"
    by (rule sum.Sigma) simp_all
  also have "(SIGMA i:{..<length ratings}. {j \<in> {..<length (ratings ! i)}. ratings ! i ! j \<noteq> 0}) = observed ratings"
    by (auto simp: observed_def)
  finally show ?thesis .
qed

lemma entry_err_update:
  assumes "(i, j) \<notin> observed ratings"
  shows "entry_err ratings (guess[i := (guess ! i)[j := v]]) i' j' = entry_err ratings guess i' j'"
proof (cases "i' < length ratings \<and> j' < length (ratings ! i')")
  case False
  then show ?thesis by (auto simp: entry_err_def elem_at_def)
next
  case True
  show ?thesis
  proof (cases "i' = i \<and> j' = j")
    case True
    with assms \<open>i' < length ratings \<and> j' < length (ratings ! i')\<close> show ?thesis
      by (simp add: entry_err_def elem_at_def observed_def)
  next
    case False
    then have "elem_at (guess[i := (guess ! i)[j := v]]) i' j' = elem_at guess i' j'"
      by (cases "i' = i") (auto simp: elem_at_def nth_list_update)
    then show ?thesis unfolding entry_err_def by (simp only:)
  qed
qed

lemma masked_err_update:
  assumes "(i, j) \<notin> observed ratings"
  shows "masked_err ratings (guess[i := (guess ! i)[j := v]]) = masked_err ratings guess"
proof -
  have "entry_err ratings (guess[i := (guess ! i)[j := v]]) = entry_err ratings guess"
    using entry_err_update[OF assms] by (intro ext)
  then have "row_err ratings (guess[i := (guess ! i)[j := v]]) = row_err ratings guess"
    by (simp add: row_err_def fun_eq_iff)
  then show ?thesis by (simp add: masked_err_rows)
qed

lemma als_body_Inr:
  assumes "als_body pinv ratings ratings_cols s = Inr s'"
  shows "\<exists>nu ni guess e.
           user_sweep pinv ratings (v_items s) = Inr nu \<and>
           item_sweep pinv ratings ratings_cols nu = Inr ni \<and>
           dot_mm nu (transpose_m ni) = Inr guess \<and> masked_err ratings guess = Inr e \<and>
           s' = s\<lparr>v_items := ni, v_new_users := Some nu, v_new_items := Some ni, printed := printed s @ [e]\<rparr>"
  using assms by (auto simp: als_body_def bind_err_Inr_iff asarray_def split: if_splits)

section \<open>Shapes of the reconstruction\<close>

lemma ncols_transpose_le: "ncols (transpose_m B) \<le> length B"
proof (cases "ncols B")
  case 0
  then show ?thesis by (simp add: transpose_m_def ncols_def)
next
  case (Suc n)
  then have "[0..<ncols B] = 0 # [1..<ncols B]" by (simp add: upt_conv_Cons)
  then have "transpose_m B = map (\<lambda>row. row ! 0) B # map (\<lambda>j. map (\<lambda>row. row ! j) B) [1..<ncols B]"
    by (simp add: transpose_m_def)
  then show ?thesis by (simp add: ncols_def)
qed

lemma dot_mm_row_length:
  "dot_mm A B = Inr G \<Longrightarrow> i < length G \<Longrightarrow> length (G ! i) = ncols B"
  by (auto simp: dot_mm_def transpose_m_def split: if_splits)

section \<open>Evaluating the examples\<close>

lemmas ev = user_sweep_def item_sweep_def masked_err_def als_body_def als_def
  row_at_def elem_at_def dot_mv_def dot_mm_def asarray_def transpose_m_def ncols_def vdot_def
  pinv_orth_def upt_conv_Cons is_matrix_def

lemmas ev2 = ev eval_nat_numeral

lemma is_pinv_Q5: "is_pinv Q5 (pinv_orth Q5)"
  by (simp add: is_pinv_def ev Q5_def)

lemma is_pinv_P5: "is_pinv P5 (pinv_orth P5)"
  by (simp add: is_pinv_def ev P5_def)

lemma is_pinv_Q23: "is_pinv Q23 (pinv_orth Q23)"
  by (simp add: is_pinv_def ev Q23_def)

lemma is_pinv_I2: "is_pinv I2 (pinv_orth I2)"
  by (simp add: is_pinv_def ev I2_def)

lemma is_pinv_Q2: "is_pinv Q2 (pinv_orth Q2)"
  by (simp add: is_pinv_def ev Q2_def)

lemma is_pinv_R32: "is_pinv R32 (pinv_orth R32)"
  by (simp add: is_pinv_def ev R32_def)

lemma is_pinv_Q2b: "is_pinv Q2b (pinv_orth Q2b)"
  by (simp add: is_pinv_def ev Q2b_def)

lemma is_pinv_P2b: "is_pinv P2b (pinv_orth P2b)"
  by (simp add: is_pinv_def ev P2b_def)

text \<open>On the 2 by 3 ratings \<open>R23\<close> the first iteration hands over the 2 by 2 item factors
  \<open>I2\<close> (one row per user, not per item), and the user sweep of the second iteration
  raises: the rows of \<open>pinv I2\<close> have 2 entries, the rating rows 3.\<close>

lemma second_sweep_raises_R23:
  "user_sweep pinv_orth R23 I2 = Inl ValueError \<and> is_matrix 2 3 R23 \<and> \<not> is_matrix 2 3 (pinv_orth I2)"
  by (simp add: ev R23_def I2_def)

section \<open>Square ratings\<close>

text \<open>
  When there are as many items as users, \<open>range(len(ratings))\<close> is also the range of the
  items. Then, for a \<open>pinv\<close> that returns matrices of the shape of a pseudo-inverse, every
  iteration completes, both sweeps solve once per row, the reconstruction has the shape
  of the ratings, and \<open>als\<close> returns it after printing \<open>reps\<close> errors.
\<close>

lemma pinv_shapeD: "pinv_shape pinv \<Longrightarrow> 0 < n \<Longrightarrow> 0 < k \<Longrightarrow> is_matrix n k A \<Longrightarrow> is_matrix k n (pinv A)"
  by (simp add: pinv_shape_def)

lemma ncols_is_matrix: "is_matrix m n A \<Longrightarrow> 0 < m \<Longrightarrow> ncols A = n"
  by (cases A) (simp_all add: is_matrix_def ncols_def)

lemma transpose_m_is_matrix:
  assumes "is_matrix m n A" "0 < m"
  shows "is_matrix n m (transpose_m A)"
proof -
  have "ncols A = n" using assms by (rule ncols_is_matrix)
  then show ?thesis using assms(1) by (simp add: transpose_m_def is_matrix_iff)
qed

lemma transpose_m_nth:
  assumes "is_matrix m n A" "0 < m" "j < n"
  shows "transpose_m A ! j = map (\<lambda>row. row ! j) A"
proof -
  have "ncols A = n" using assms(1,2) by (rule ncols_is_matrix)
  then show ?thesis using assms(3) by (simp add: transpose_m_def)
qed

lemma transpose_m_twice:
  assumes "is_matrix m n A" "0 < m" "0 < n"
  shows "transpose_m (transpose_m A) = A"
proof -
  have t: "is_matrix n m (transpose_m A)" using assms by (simp add: transpose_m_is_matrix)
  have "length (transpose_m (transpose_m A)) = length A"
    using transpose_m_is_matrix[OF t assms(3)] assms(1) by (simp add: is_matrix_def)
  moreover have "transpose_m (transpose_m A) ! i = A ! i" if "i < m" for i
  proof -
    have "transpose_m (transpose_m A) ! i = map (\<lambda>row. row ! i) (transpose_m A)"
      using t assms(3) that by (rule transpose_m_nth)
    also have "\<dots> = map (\<lambda>j. A ! i ! j) [0..<n]"
      using ncols_is_matrix[OF assms(1,2)] assms(1) that by (simp add: transpose_m_def is_matrix_def)
    also have "\<dots> = A ! i"
      using is_matrix_nth[OF assms(1) that] map_nth[of "A ! i"] by simp
    finally show ?thesis .
  qed
  ultimately show ?thesis
    using assms(1) by (simp add: list_eq_iff_nth_eq is_matrix_def)
qed

lemma asarray_is_matrix: "is_matrix m n A \<Longrightarrow> asarray A = Inr A"
  by (cases A) (simp_all add: asarray_def is_matrix_def ncols_def)

lemma item_sweep_rows:
  assumes R: "is_matrix m m ratings" and X: "is_matrix k m (pinv nu)" and m: "0 < m"
  shows "item_sweep pinv ratings (transpose_m ratings) nu =
           Inr (map (\<lambda>j. map (\<lambda>xrow. vdot xrow (map (\<lambda>row. row ! j) ratings)) (pinv nu)) [0..<m])"
proof -
  have len: "length ratings = m" using R by (simp add: is_matrix_def)
  have tl: "length (transpose_m ratings) = m"
    using transpose_m_is_matrix[OF R m] by (simp add: is_matrix_def)
  have xrows: "list_all (\<lambda>xrow. length xrow = m) (pinv nu)" using X by (simp add: is_matrix_def)
  have "solve (pinv nu) (transpose_m ratings) j =
      Inr (map (\<lambda>xrow. vdot xrow (map (\<lambda>row. row ! j) ratings)) (pinv nu))" if "j < m" for j
    using that tl xrows len transpose_m_nth[OF R m that] by (simp add: solve_Inr_iff)
  then show ?thesis
    using len by (simp add: item_sweep_Inr_nth)
qed

lemma dot_mm_transpose:
  assumes P: "is_matrix m k P" and Q: "is_matrix n k Q" and "0 < n" "0 < k"
  shows "dot_mm P (transpose_m Q) = Inr (map (\<lambda>p. map (\<lambda>q. vdot p q) Q) P)"
proof -
  have "length (transpose_m Q) = k"
    using transpose_m_is_matrix[OF Q \<open>0 < n\<close>] by (simp add: is_matrix_def)
  moreover have "transpose_m (transpose_m Q) = Q"
    using Q \<open>0 < n\<close> \<open>0 < k\<close> by (rule transpose_m_twice)
  ultimately show ?thesis
    using P by (simp add: dot_mm_def is_matrix_def)
qed

lemma masked_err_total:
  assumes "is_matrix m r ratings" "is_matrix m r guess"
  shows "\<exists>e. masked_err ratings guess = Inr e"
  using assms by (simp add: masked_err_Inr_iff is_matrix_iff)

lemma als_body_square:
  assumes pinv: "pinv_shape pinv"
    and m: "0 < m" and k: "0 < k"
    and R: "is_matrix m m ratings" and Q: "is_matrix m k (v_items s)"
  shows "\<exists>nu ni e. als_body pinv ratings (transpose_m ratings) s =
            Inr (s\<lparr>v_items := ni, v_new_users := Some nu, v_new_items := Some ni,
                   printed := printed s @ [e]\<rparr>) \<and>
          is_matrix m k nu \<and> is_matrix m k ni \<and>
          (\<forall>i<m. dot_mv (pinv (v_items s)) (ratings ! i) = Inr (nu ! i)) \<and>
          (\<forall>j<m. dot_mv (pinv nu) (map (\<lambda>row. row ! j) ratings) = Inr (ni ! j)) \<and>
          (\<exists>guess. dot_mm nu (transpose_m ni) = Inr guess \<and> is_matrix m m guess)"
proof -
  define nu where "nu = map (\<lambda>row. map (\<lambda>xrow. vdot xrow row) (pinv (v_items s))) ratings"
  define ni where "ni = map (\<lambda>j. map (\<lambda>xrow. vdot xrow (map (\<lambda>row. row ! j) ratings)) (pinv nu)) [0..<m]"
  define guess where "guess = map (\<lambda>p. map (\<lambda>q. vdot p q) ni) nu"
  have len: "length ratings = m" using R by (simp add: is_matrix_def)
  have X: "is_matrix k m (pinv (v_items s))" using pinv m k Q by (rule pinv_shapeD)
  have us: "user_sweep pinv ratings (v_items s) = Inr nu"
    unfolding nu_def using R X by (rule user_sweep_rows)
  have nu: "is_matrix m k nu"
    using X len by (simp add: nu_def is_matrix_iff)
  have Y: "is_matrix k m (pinv nu)" using pinv m k nu by (rule pinv_shapeD)
  have "is": "item_sweep pinv ratings (transpose_m ratings) nu = Inr ni"
    unfolding ni_def using R Y m by (rule item_sweep_rows)
  have ni: "is_matrix m k ni"
    using Y by (simp add: ni_def is_matrix_iff)
  have g: "dot_mm nu (transpose_m ni) = Inr guess"
    unfolding guess_def using nu ni m k by (rule dot_mm_transpose)
  have gm: "is_matrix m m guess"
    using nu ni by (simp add: guess_def is_matrix_iff)
  from masked_err_total[OF R gm] obtain e where e: "masked_err ratings guess = Inr e" by blast
  have body: "als_body pinv ratings (transpose_m ratings) s =
      Inr (s\<lparr>v_items := ni, v_new_users := Some nu, v_new_items := Some ni,
             printed := printed s @ [e]\<rparr>)"
    using us "is" g e asarray_is_matrix[OF nu] asarray_is_matrix[OF ni]
    by (simp add: als_body_def)
  have d1: "dot_mv (pinv (v_items s)) (ratings ! i) = Inr (nu ! i)" if "i < m" for i
    using that len X is_matrix_nth[OF R that] by (simp add: dot_mv_def nu_def is_matrix_def)
  have d2: "dot_mv (pinv nu) (map (\<lambda>row. row ! j) ratings) = Inr (ni ! j)" if "j < m" for j
    using that len Y by (simp add: dot_mv_def ni_def is_matrix_def)
  show ?thesis
    using body nu ni d1 d2 g gm by blast
qed

lemma als_loop_square:
  assumes pinv: "pinv_shape pinv"
    and m: "0 < m" and k: "0 < k"
    and R: "is_matrix m m ratings"
  shows "is_matrix m k (v_items s) \<Longrightarrow>
         rel_option (\<lambda>nu ni. is_matrix m k nu \<and> is_matrix m k ni) (v_new_users s) (v_new_items s) \<Longrightarrow>
         \<exists>out s'. als_loop pinv ratings (transpose_m ratings) n s = (out, Inr s') \<and>
           length out = length (printed s) + n \<and> is_matrix m k (v_items s') \<and>
           rel_option (\<lambda>nu ni. is_matrix m k nu \<and> is_matrix m k ni) (v_new_users s') (v_new_items s') \<and>
           (0 < n \<longrightarrow> v_new_users s' \<noteq> None)"
proof (induction n arbitrary: s)
  case 0
  then show ?case by simp
next
  case (Suc n)
  from als_body_square[OF pinv m k R Suc.prems(1)] obtain nu ni e where
    b: "als_body pinv ratings (transpose_m ratings) s =
            Inr (s\<lparr>v_items := ni, v_new_users := Some nu, v_new_items := Some ni,
                   printed := printed s @ [e]\<rparr>)"
    and nu: "is_matrix m k nu" and ni: "is_matrix m k ni"
    by blast
  let ?s' = "s\<lparr>v_items := ni, v_new_users := Some nu, v_new_items := Some ni,
                   printed := printed s @ [e]\<rparr>"
  have "is_matrix m k (v_items ?s')" using ni by simp
  moreover have "rel_option (\<lambda>nu ni. is_matrix m k nu \<and> is_matrix m k ni) (v_new_users ?s') (v_new_items ?s')"
    using nu ni by simp
  ultimately obtain out s'' where
    l: "als_loop pinv ratings (transpose_m ratings) n ?s' = (out, Inr s'')"
    and o: "length out = length (printed ?s') + n" and i: "is_matrix m k (v_items s'')"
    and r: "rel_option (\<lambda>nu ni. is_matrix m k nu \<and> is_matrix m k ni) (v_new_users s'') (v_new_items s'')"
    and nn: "0 < n \<longrightarrow> v_new_users s'' \<noteq> None"
    using Suc.IH[of ?s'] by blast
  have "v_new_users s'' \<noteq> None"
  proof (cases n)
    case 0
    with l show ?thesis by auto
  next
    case (Suc n')
    with nn show ?thesis by simp
  qed
  with b l o i r show ?case by simp
qed

lemma als_square:
  assumes pinv: "pinv_shape pinv"
    and m: "0 < m" and k: "0 < k"
    and R: "is_matrix m m ratings" and Q: "is_matrix m k items" and reps: "0 < reps"
  shows "\<exists>out guess. als pinv ratings users items reps = (out, Inr guess) \<and>
           length out = nat reps \<and> is_matrix m m guess"
proof -
  let ?s0 = "\<lparr>v_items = items, v_new_users = None, v_new_items = None, printed = []\<rparr>"
  from als_loop_square[OF pinv m k R, of ?s0 "nat reps"] Q reps
  obtain out s' where l: "als_loop pinv ratings (transpose_m ratings) (nat reps) ?s0 = (out, Inr s')"
    and o: "length out = nat reps"
    and r: "rel_option (\<lambda>nu ni. is_matrix m k nu \<and> is_matrix m k ni) (v_new_users s') (v_new_items s')"
    and nn: "v_new_users s' \<noteq> None"
    by auto
  from r nn obtain nu ni where s: "v_new_users s' = Some nu" "v_new_items s' = Some ni"
    and nu: "is_matrix m k nu" and ni: "is_matrix m k ni"
    by (cases "v_new_users s'"; cases "v_new_items s'") auto
  have "dot_mm nu (transpose_m ni) = Inr (map (\<lambda>p. map (\<lambda>q. vdot p q) ni) nu)"
    using nu ni m k by (rule dot_mm_transpose)
  moreover have "is_matrix m m (map (\<lambda>p. map (\<lambda>q. vdot p q) ni) nu)"
    using nu ni by (simp add: is_matrix_iff)
  ultimately show ?thesis
    using l o s by (simp add: als_def)
qed

lemma pinv_shape_pinv_orth: "pinv_shape pinv_orth"
  unfolding pinv_shape_def
proof (intro allI impI)
  fix A :: matrix and n k
  assume a: "0 < n \<and> 0 < k \<and> is_matrix n k A"
  then have "is_matrix n k (map (\<lambda>row. map (\<lambda>x. x / vdot row row) row) A)"
    by (simp add: is_matrix_iff)
  with a show "is_matrix k n (pinv_orth A)"
    unfolding pinv_orth_def by (intro transpose_m_is_matrix) simp_all
qed

lemma als_R2_three_iterations:
  "als pinv_orth R2 users Q2 3 = ([4, 4, 4], Inr [[1,0],[0,0]])"
  by (simp add: ev2 R2_def Q2_def)

section \<open>The store is only extended\<close>

lemma extendsI: "(\<And>st. \<exists>new r. m st = (st @ new, r)) \<Longrightarrow> extends m"
  by (simp add: extends_def)

lemma extendsD: "extends m \<Longrightarrow> \<exists>new r. m st = (st @ new, r)"
  by (simp add: extends_def)

lemma extends_st_pure: "extends (st_pure r)"
  by (simp add: extends_def st_pure_def)

lemma extends_new_array: "extends (new_array A)"
  by (simp add: extends_def new_array_def)

lemma extends_st_bind:
  assumes "extends m" and "\<And>x. extends (f x)"
  shows "extends (st_bind m f)"
proof (rule extendsI)
  fix st
  from extendsD[OF assms(1), of st] obtain new r where m: "m st = (st @ new, r)" by blast
  show "\<exists>new r. st_bind m f st = (st @ new, r)"
  proof (cases r)
    case (Inl e)
    with m show ?thesis by (simp add: st_bind_def)
  next
    case (Inr x)
    from extendsD[OF assms(2), of x "st @ new"] obtain new' r' where
      "f x (st @ new) = ((st @ new) @ new', r')" by blast
    with m Inr show ?thesis by (simp add: st_bind_def)
  qed
qed

lemma extends_st_for_each:
  assumes "\<And>i s. extends (body i s)"
  shows "extends (st_for_each idxs body s)"
proof (rule extendsI)
  fix st
  show "\<exists>new r. st_for_each idxs body s st = (st @ new, r)"
  proof (induction idxs arbitrary: s st)
    case Nil
    then show ?case by simp
  next
    case (Cons i idxs)
    from extendsD[OF assms, of i s st] obtain new r where b: "body i s st = (st @ new, r)" by blast
    show ?case
    proof (cases r)
      case (Inl e)
      with b show ?thesis by simp
    next
      case (Inr s')
      from Cons.IH[of s' "st @ new"] obtain new' r' where
        "st_for_each idxs body s' (st @ new) = ((st @ new) @ new', r')" by blast
      with b Inr show ?thesis by simp
    qed
  qed
qed

lemma extends_np [simp]:
  "extends (np_row a i)" "extends (np_elem a i j)" "extends (np_pinv pinv a)"
  "extends (np_dot_mv a v)" "extends (np_dot_mm a b)" "extends (np_asarray rows)"
  by (auto simp: extends_def np_row_def np_elem_def np_pinv_def np_dot_mv_def np_dot_mm_def
      np_asarray_def st_pure_def new_array_def split: sum.splits)

lemma extends_user_sweep_st: "extends (user_sweep_st pinv ratings items)"
proof (rule extendsI)
  fix st
  have "extends (st_for_each [0..<np_len ratings st]
       (\<lambda>i new_users.
          st_bind (np_pinv pinv items) (\<lambda>x.
          st_bind (np_row ratings i) (\<lambda>ri.
          st_bind (np_dot_mv x ri) (\<lambda>user.
          st_pure (Inr (new_users @ [user])))))) [])"
    by (intro extends_st_for_each extends_st_bind extends_st_pure extends_np)
  from extendsD[OF this, of st] show "\<exists>new r. user_sweep_st pinv ratings items st = (st @ new, r)"
    by (simp add: user_sweep_st_def)
qed

lemma extends_item_sweep_st: "extends (item_sweep_st pinv ratings ratings_cols nu)"
proof (rule extendsI)
  fix st
  have "extends (st_for_each [0..<np_len ratings st]
       (\<lambda>i new_items.
          st_bind (np_pinv pinv nu) (\<lambda>x.
          st_bind (np_row ratings_cols i) (\<lambda>ci.
          st_bind (np_dot_mv x ci) (\<lambda>item.
          st_pure (Inr (new_items @ [item])))))) [])"
    by (intro extends_st_for_each extends_st_bind extends_st_pure extends_np)
  from extendsD[OF this, of st] show "\<exists>new r. item_sweep_st pinv ratings ratings_cols nu st = (st @ new, r)"
    by (simp add: item_sweep_st_def)
qed

lemma extends_if: "extends m \<Longrightarrow> extends n \<Longrightarrow> extends (if c then m else n)"
  by simp

lemma extends_masked_err_st: "extends (masked_err_st ratings guess)"
proof (rule extendsI)
  fix st
  have "extends (st_for_each [0..<np_len ratings st]
       (\<lambda>i err.
          st_bind (np_row ratings i) (\<lambda>ri.
          st_for_each [0..<length ri]
            (\<lambda>j err.
               st_bind (np_elem ratings i j) (\<lambda>rij.
               if rij \<noteq> 0
               then st_bind (np_elem guess i j) (\<lambda>gij. st_pure (Inr (err + (rij - gij)\<^sup>2)))
               else st_pure (Inr err)))
            err))
       0)"
    by (intro extends_st_for_each extends_st_bind extends_if extends_st_pure extends_np)
  from extendsD[OF this, of st] show "\<exists>new r. masked_err_st ratings guess st = (st @ new, r)"
    by (simp add: masked_err_st_def)
qed

lemma extends_als_body_st: "extends (als_body_st pinv ratings ratings_cols s)"
  unfolding als_body_st_def
  by (intro extends_st_bind extends_st_pure extends_np extends_user_sweep_st
      extends_item_sweep_st extends_masked_err_st)

lemma als_loop_st_extends:
  "\<exists>new out r. als_loop_st pinv ratings ratings_cols n s st = (st @ new, out, r)"
proof (induction n arbitrary: s st)
  case 0
  then show ?case by simp
next
  case (Suc n)
  from extendsD[OF extends_als_body_st, of pinv ratings ratings_cols s st]
  obtain new r where b: "als_body_st pinv ratings ratings_cols s st = (st @ new, r)" by blast
  show ?case
  proof (cases r)
    case (Inl e)
    with b show ?thesis by simp
  next
    case (Inr s')
    from Suc.IH[of s' "st @ new"] obtain new' out r' where
      "als_loop_st pinv ratings ratings_cols n s' (st @ new) = ((st @ new) @ new', out, r')" by blast
    with b Inr show ?thesis by simp
  qed
qed

lemma als_st_extends:
  "\<exists>new out r. als_st pinv ratings users items reps st = (st @ new, out, r)"
proof -
  let ?s0 = "\<lparr>r_items = items, r_new_users = None, r_new_items = None, r_printed = []\<rparr>"
  from als_loop_st_extends[of pinv ratings "view_T ratings" "nat reps" ?s0 st]
  obtain new out r where
    l: "als_loop_st pinv ratings (view_T ratings) (nat reps) ?s0 st = (st @ new, out, r)" by blast
  show ?thesis
  proof (cases r)
    case (Inl e)
    with l show ?thesis by (simp add: als_st_def)
  next
    case (Inr s)
    show ?thesis
    proof (cases "r_new_users s")
      case None
      with l Inr show ?thesis by (simp add: als_st_def)
    next
      case (Some nu)
      note nu = this
      show ?thesis
      proof (cases "r_new_items s")
        case None
        with l Inr nu show ?thesis by (simp add: als_st_def)
      next
        case (Some ni)
        from extendsD[OF extends_np(5), of nu "view_T ni" "st @ new"] obtain new' r' where
          "np_dot_mm nu (view_T ni) (st @ new) = ((st @ new) @ new', r')" by blast
        with l Inr nu Some show ?thesis by (simp add: als_st_def)
      qed
    qed
  qed
qed

section \<open>The store functions compute what the functions on values compute\<close>

lemma load_append: "base a < length st \<Longrightarrow> load (st @ ext) a = load st a"
  by (simp add: load_def nth_append)

lemma load_new: "load (st @ [A]) \<lparr>base = length st, transposed = False\<rparr> = A"
  by (simp add: load_def)

lemma load_view_T_append: "base a < length st \<Longrightarrow> load (st @ ext) (view_T a) = load st (view_T a)"
  by (simp add: load_def view_T_def nth_append)

lemma st_for_each_pure:
  assumes "\<And>i s ext. \<exists>new. body i s (st0 @ ext) = (st0 @ ext @ new, pbody i s)"
  shows "\<exists>new. st_for_each idxs body s (st0 @ ext) = (st0 @ ext @ new, for_each idxs pbody s)"
proof (induction idxs arbitrary: s ext)
  case Nil
  then show ?case by simp
next
  case (Cons i idxs)
  from assms[of i s ext] obtain new where b: "body i s (st0 @ ext) = (st0 @ ext @ new, pbody i s)"
    by blast
  show ?case
  proof (cases "pbody i s")
    case (Inl e)
    with b show ?thesis by simp
  next
    case (Inr s')
    from Cons.IH[of s' "ext @ new"] obtain new' where
      "st_for_each idxs body s' (st0 @ ext @ new) = (st0 @ (ext @ new) @ new', for_each idxs pbody s')"
      by auto
    with b Inr show ?thesis by simp
  qed
qed

lemma sweep_body_pure:
  assumes "base m < length st0" "base a < length st0"
  shows "\<exists>new. st_bind (np_pinv pinv a) (\<lambda>x.
          st_bind (np_row m i) (\<lambda>ri.
          st_bind (np_dot_mv x ri) (\<lambda>u.
          st_pure (Inr (acc @ [u]))))) (st0 @ ext)
        = (st0 @ ext @ new,
           bind_err (row_at (load st0 m) i) (\<lambda>ri.
           bind_err (dot_mv (pinv (load st0 a)) ri) (\<lambda>u. Inr (acc @ [u]))))"
proof -
  have l1: "load ((st0 @ ext) @ [X]) m = load st0 m" for X
    using assms(1) by (simp add: load_append)
  have l2: "load (st0 @ ext) a = load st0 a"
    using assms(2) by (simp add: load_append)
  have l3: "load ((st0 @ ext) @ [X]) \<lparr>base = length (st0 @ ext), transposed = False\<rparr> = X" for X
    by (rule load_new)
  show ?thesis
    unfolding st_bind_def np_pinv_def new_array_def np_row_def np_dot_mv_def st_pure_def
    by (simp only: l1 l2 l3 prod.case sum.case) (auto split: sum.splits simp: bind_err_def)
qed

lemma refines_bind:
  assumes "refines st m Rel p"
    and "\<And>new x y. Rel (st @ new) x y \<Longrightarrow> refines (st @ new) (f x) Rel' (g y)"
  shows "refines st (st_bind m f) Rel' (bind_err p g)"
proof -
  from assms(1) obtain new r where m: "m st = (st @ new, r)" and r: "rel_sum (=) (Rel (st @ new)) r p"
    by (auto simp: refines_def)
  show ?thesis
  proof (cases p)
    case (Inl e)
    with r have "r = Inl e" by (cases r) auto
    with m Inl show ?thesis by (auto simp: refines_def st_bind_def)
  next
    case (Inr y)
    with r obtain x where x: "r = Inr x" and xy: "Rel (st @ new) x y" by (cases r) auto
    from assms(2)[OF xy] obtain new' r' where
      "f x (st @ new) = ((st @ new) @ new', r')" "rel_sum (=) (Rel' ((st @ new) @ new')) r' (g y)"
      by (auto simp: refines_def)
    with m x Inr show ?thesis by (auto simp: refines_def st_bind_def)
  qed
qed

lemma refines_pure: "Rel st x y \<Longrightarrow> refines st (st_pure (Inr x)) Rel (Inr y)"
  by (simp add: refines_def st_pure_def)

lemma refines_eqI:
  "\<exists>new. m st = (st @ new, p) \<Longrightarrow> refines st m (\<lambda>_. (=)) p"
  by (auto simp: refines_def sum.rel_eq)

lemma fresh_at_append: "fresh_at st a A \<Longrightarrow> fresh_at (st @ ext) a A"
  by (simp add: fresh_at_def nth_append)

lemma fresh_at_load: "fresh_at st a A \<Longrightarrow> load st a = A"
  by (simp add: fresh_at_def load_def)

lemma fresh_at_load_T: "fresh_at st a A \<Longrightarrow> load st (view_T a) = transpose_m A"
  by (simp add: fresh_at_def load_def view_T_def)

lemma fresh_at_base: "fresh_at st a A \<Longrightarrow> base a < length st"
  by (simp add: fresh_at_def)

lemma refines_asarray: "refines st (np_asarray rows) fresh_at (asarray rows)"
  by (cases "asarray rows") (auto simp: refines_def np_asarray_def new_array_def fresh_at_def)

lemma refines_dot_mm:
  "load st a = A \<Longrightarrow> load st b = B \<Longrightarrow> refines st (np_dot_mm a b) fresh_at (dot_mm A B)"
  by (cases "dot_mm A B") (auto simp: refines_def np_dot_mm_def new_array_def fresh_at_def)

lemma user_sweep_st_pure:
  assumes "base ratings < length st" "base items < length st"
  shows "\<exists>new. user_sweep_st pinv ratings items st =
           (st @ new, user_sweep pinv (load st ratings) (load st items))"
proof -
  have "\<exists>new. st_for_each [0..<length (load st ratings)]
       (\<lambda>i new_users.
          st_bind (np_pinv pinv items) (\<lambda>x.
          st_bind (np_row ratings i) (\<lambda>ri.
          st_bind (np_dot_mv x ri) (\<lambda>user.
          st_pure (Inr (new_users @ [user])))))) [] (st @ []) =
       (st @ [] @ new, for_each [0..<length (load st ratings)]
       (\<lambda>i new_users.
          bind_err (row_at (load st ratings) i) (\<lambda>ri.
          bind_err (dot_mv (pinv (load st items)) ri) (\<lambda>user.
          Inr (new_users @ [user])))) [])"
    by (rule st_for_each_pure) (rule sweep_body_pure[OF assms])
  then show ?thesis
    by (simp add: user_sweep_st_def user_sweep_def np_len_def)
qed

lemma item_sweep_st_pure:
  assumes "base ratings < length st" "base ratings_cols < length st" "base nu < length st"
  shows "\<exists>new. item_sweep_st pinv ratings ratings_cols nu st =
           (st @ new, item_sweep pinv (load st ratings) (load st ratings_cols) (load st nu))"
proof -
  have "\<exists>new. st_for_each [0..<length (load st ratings)]
       (\<lambda>i new_items.
          st_bind (np_pinv pinv nu) (\<lambda>x.
          st_bind (np_row ratings_cols i) (\<lambda>ci.
          st_bind (np_dot_mv x ci) (\<lambda>item.
          st_pure (Inr (new_items @ [item])))))) [] (st @ []) =
       (st @ [] @ new, for_each [0..<length (load st ratings)]
       (\<lambda>i new_items.
          bind_err (row_at (load st ratings_cols) i) (\<lambda>ci.
          bind_err (dot_mv (pinv (load st nu)) ci) (\<lambda>item.
          Inr (new_items @ [item])))) [])"
    by (rule st_for_each_pure) (rule sweep_body_pure[OF assms(2,3)])
  then show ?thesis
    by (simp add: item_sweep_st_def item_sweep_def np_len_def)
qed

lemma err_entry_pure:
  assumes "base ratings < length st0" "base guess < length st0"
  shows "\<exists>new. st_bind (np_elem ratings i j) (\<lambda>rij.
               if rij \<noteq> 0
               then st_bind (np_elem guess i j) (\<lambda>gij. st_pure (Inr (err + (rij - gij)\<^sup>2)))
               else st_pure (Inr err)) (st0 @ ext)
         = (st0 @ ext @ new,
            bind_err (elem_at (load st0 ratings) i j) (\<lambda>rij.
               if rij \<noteq> 0
               then bind_err (elem_at (load st0 guess) i j) (\<lambda>gij. Inr (err + (rij - gij)\<^sup>2))
               else Inr err))"
  using assms
  by (auto simp: st_bind_def np_elem_def st_pure_def load_append bind_err_def split: sum.splits)

lemma err_row_pure:
  assumes "base ratings < length st0" "base guess < length st0"
  shows "\<exists>new. st_bind (np_row ratings i) (\<lambda>ri.
          st_for_each [0..<length ri]
            (\<lambda>j err.
               st_bind (np_elem ratings i j) (\<lambda>rij.
               if rij \<noteq> 0
               then st_bind (np_elem guess i j) (\<lambda>gij. st_pure (Inr (err + (rij - gij)\<^sup>2)))
               else st_pure (Inr err)))
            err) (st0 @ ext)
         = (st0 @ ext @ new,
            bind_err (row_at (load st0 ratings) i) (\<lambda>ri.
            for_each [0..<length ri]
              (\<lambda>j err.
                 bind_err (elem_at (load st0 ratings) i j) (\<lambda>rij.
                 if rij \<noteq> 0
                 then bind_err (elem_at (load st0 guess) i j) (\<lambda>gij. Inr (err + (rij - gij)\<^sup>2))
                 else Inr err))
              err))"
proof (cases "row_at (load st0 ratings) i")
  case (Inl e)
  with assms show ?thesis
    by (simp add: st_bind_def np_row_def st_pure_def load_append)
next
  case (Inr ri)
  have "\<exists>new. st_for_each [0..<length ri]
            (\<lambda>j err.
               st_bind (np_elem ratings i j) (\<lambda>rij.
               if rij \<noteq> 0
               then st_bind (np_elem guess i j) (\<lambda>gij. st_pure (Inr (err + (rij - gij)\<^sup>2)))
               else st_pure (Inr err)))
            err (st0 @ ext)
        = (st0 @ ext @ new, for_each [0..<length ri]
              (\<lambda>j err.
                 bind_err (elem_at (load st0 ratings) i j) (\<lambda>rij.
                 if rij \<noteq> 0
                 then bind_err (elem_at (load st0 guess) i j) (\<lambda>gij. Inr (err + (rij - gij)\<^sup>2))
                 else Inr err))
              err)"
    by (rule st_for_each_pure) (rule err_entry_pure[OF assms])
  with Inr assms show ?thesis
    by (simp add: st_bind_def np_row_def st_pure_def load_append)
qed

lemma masked_err_st_pure:
  assumes "base ratings < length st" "base guess < length st"
  shows "\<exists>new. masked_err_st ratings guess st =
           (st @ new, masked_err (load st ratings) (load st guess))"
proof -
  have "\<exists>new. st_for_each [0..<length (load st ratings)]
       (\<lambda>i err.
          st_bind (np_row ratings i) (\<lambda>ri.
          st_for_each [0..<length ri]
            (\<lambda>j err.
               st_bind (np_elem ratings i j) (\<lambda>rij.
               if rij \<noteq> 0
               then st_bind (np_elem guess i j) (\<lambda>gij. st_pure (Inr (err + (rij - gij)\<^sup>2)))
               else st_pure (Inr err)))
            err))
       0 (st @ []) =
       (st @ [] @ new, for_each [0..<length (load st ratings)]
       (\<lambda>i err.
          bind_err (row_at (load st ratings) i) (\<lambda>ri.
          for_each [0..<length ri]
            (\<lambda>j err.
               bind_err (elem_at (load st ratings) i j) (\<lambda>rij.
               if rij \<noteq> 0
               then bind_err (elem_at (load st guess) i j) (\<lambda>gij. Inr (err + (rij - gij)\<^sup>2))
               else Inr err))
            err))
       0)"
    by (rule st_for_each_pure) (rule err_row_pure[OF assms])
  then show ?thesis
    by (simp add: masked_err_st_def masked_err_def np_len_def)
qed

lemma refs_rel_append: "refs_rel st sr sp \<Longrightarrow> refs_rel (st @ ext) sr sp"
  by (auto simp: refs_rel_def load_append fresh_at_append option.rel_sel)

lemma als_body_st_refines:
  assumes r: "base ratings < length st" and rc: "base ratings_cols < length st"
    and rel: "refs_rel st sr sp"
  shows "refines st (als_body_st pinv ratings ratings_cols sr) refs_rel
           (als_body pinv (load st ratings) (load st ratings_cols) sp)"
  unfolding als_body_st_def als_body_def
proof (rule refines_bind[where Rel = "\<lambda>_. (=)"])
  show "refines st (user_sweep_st pinv ratings (r_items sr)) (\<lambda>_. (=))
          (user_sweep pinv (load st ratings) (v_items sp))"
    using user_sweep_st_pure[of ratings st "r_items sr" pinv] r rel
    by (intro refines_eqI) (simp add: refs_rel_def)
next
  fix e1 us us'
  assume "us = (us' :: vec list)"
  then show "refines (st @ e1)
       (st_bind (np_asarray us) (\<lambda>nu.
        st_bind (item_sweep_st pinv ratings ratings_cols nu) (\<lambda>is.
        st_bind (np_asarray is) (\<lambda>ni.
        st_bind (np_dot_mm nu (view_T ni)) (\<lambda>guess.
        st_bind (masked_err_st ratings guess) (\<lambda>err.
        st_pure (Inr (sr\<lparr>r_items := ni, r_new_users := Some nu, r_new_items := Some ni,
                         r_printed := r_printed sr @ [err]\<rparr>))))))))
       refs_rel
       (bind_err (asarray us') (\<lambda>nu.
        bind_err (item_sweep pinv (load st ratings) (load st ratings_cols) nu) (\<lambda>is.
        bind_err (asarray is) (\<lambda>ni.
        bind_err (dot_mm nu (transpose_m ni)) (\<lambda>guess.
        bind_err (masked_err (load st ratings) guess) (\<lambda>err.
        Inr (sp\<lparr>v_items := ni, v_new_users := Some nu, v_new_items := Some ni,
                printed := printed sp @ [err]\<rparr>)))))))"
  proof (simp only:, intro refines_bind[OF refines_asarray])
    fix e2 nu NU
    assume nu: "fresh_at ((st @ e1) @ e2) nu NU"
    let ?st2 = "(st @ e1) @ e2"
    show "refines ?st2
       (st_bind (item_sweep_st pinv ratings ratings_cols nu) (\<lambda>is.
        st_bind (np_asarray is) (\<lambda>ni.
        st_bind (np_dot_mm nu (view_T ni)) (\<lambda>guess.
        st_bind (masked_err_st ratings guess) (\<lambda>err.
        st_pure (Inr (sr\<lparr>r_items := ni, r_new_users := Some nu, r_new_items := Some ni,
                         r_printed := r_printed sr @ [err]\<rparr>)))))))
       refs_rel
       (bind_err (item_sweep pinv (load st ratings) (load st ratings_cols) NU) (\<lambda>is.
        bind_err (asarray is) (\<lambda>ni.
        bind_err (dot_mm NU (transpose_m ni)) (\<lambda>guess.
        bind_err (masked_err (load st ratings) guess) (\<lambda>err.
        Inr (sp\<lparr>v_items := ni, v_new_users := Some NU, v_new_items := Some ni,
                printed := printed sp @ [err]\<rparr>))))))"
    proof (rule refines_bind[where Rel = "\<lambda>_. (=)"])
      show "refines ?st2 (item_sweep_st pinv ratings ratings_cols nu) (\<lambda>_. (=))
              (item_sweep pinv (load st ratings) (load st ratings_cols) NU)"
      proof (intro refines_eqI)
        have "base ratings < length ?st2" "base ratings_cols < length ?st2" "base nu < length ?st2"
          using r rc fresh_at_base[OF nu] by simp_all
        from item_sweep_st_pure[OF this, of pinv]
        show "\<exists>new. item_sweep_st pinv ratings ratings_cols nu ?st2 =
            (?st2 @ new, item_sweep pinv (load st ratings) (load st ratings_cols) NU)"
          using r rc fresh_at_load[OF nu] by (simp add: load_append del: append_assoc)
      qed
    next
      fix e3 "is" is'
      assume "is = (is' :: vec list)"
      then show "refines (?st2 @ e3)
         (st_bind (np_asarray is) (\<lambda>ni.
          st_bind (np_dot_mm nu (view_T ni)) (\<lambda>guess.
          st_bind (masked_err_st ratings guess) (\<lambda>err.
          st_pure (Inr (sr\<lparr>r_items := ni, r_new_users := Some nu, r_new_items := Some ni,
                           r_printed := r_printed sr @ [err]\<rparr>))))))
         refs_rel
         (bind_err (asarray is') (\<lambda>ni.
          bind_err (dot_mm NU (transpose_m ni)) (\<lambda>guess.
          bind_err (masked_err (load st ratings) guess) (\<lambda>err.
          Inr (sp\<lparr>v_items := ni, v_new_users := Some NU, v_new_items := Some ni,
                  printed := printed sp @ [err]\<rparr>)))))"
      proof (simp only:, intro refines_bind[OF refines_asarray])
        fix e4 ni NI
        assume ni: "fresh_at ((?st2 @ e3) @ e4) ni NI"
        let ?st4 = "(?st2 @ e3) @ e4"
        have nu4: "fresh_at ?st4 nu NU"
          by (rule fresh_at_append[OF fresh_at_append[OF nu]])
        show "refines ?st4
           (st_bind (np_dot_mm nu (view_T ni)) (\<lambda>guess.
            st_bind (masked_err_st ratings guess) (\<lambda>err.
            st_pure (Inr (sr\<lparr>r_items := ni, r_new_users := Some nu, r_new_items := Some ni,
                             r_printed := r_printed sr @ [err]\<rparr>)))))
           refs_rel
           (bind_err (dot_mm NU (transpose_m NI)) (\<lambda>guess.
            bind_err (masked_err (load st ratings) guess) (\<lambda>err.
            Inr (sp\<lparr>v_items := NI, v_new_users := Some NU, v_new_items := Some NI,
                    printed := printed sp @ [err]\<rparr>))))"
        proof (rule refines_bind[OF refines_dot_mm[OF fresh_at_load[OF nu4] fresh_at_load_T[OF ni]]])
          fix e5 g G
          assume g: "fresh_at (?st4 @ e5) g G"
          let ?st5 = "?st4 @ e5"
          show "refines ?st5
             (st_bind (masked_err_st ratings g) (\<lambda>err.
              st_pure (Inr (sr\<lparr>r_items := ni, r_new_users := Some nu, r_new_items := Some ni,
                               r_printed := r_printed sr @ [err]\<rparr>))))
             refs_rel
             (bind_err (masked_err (load st ratings) G) (\<lambda>err.
              Inr (sp\<lparr>v_items := NI, v_new_users := Some NU, v_new_items := Some NI,
                      printed := printed sp @ [err]\<rparr>)))"
          proof (rule refines_bind[where Rel = "\<lambda>_. (=)"])
            show "refines ?st5 (masked_err_st ratings g) (\<lambda>_. (=)) (masked_err (load st ratings) G)"
            proof (intro refines_eqI)
              have "base ratings < length ?st5" "base g < length ?st5"
                using r fresh_at_base[OF g] by simp_all
              from masked_err_st_pure[OF this]
              show "\<exists>new. masked_err_st ratings g ?st5 =
                  (?st5 @ new, masked_err (load st ratings) G)"
                using r fresh_at_load[OF g] by (simp add: load_append del: append_assoc)
            qed
          next
            fix e6 and err err' :: real
            assume "err = err'"
            moreover have "fresh_at (?st5 @ e6) nu NU"
              by (rule fresh_at_append[OF fresh_at_append[OF nu4]])
            moreover have "fresh_at (?st5 @ e6) ni NI"
              by (rule fresh_at_append[OF fresh_at_append[OF ni]])
            moreover have "r_printed sr = printed sp"
              using rel by (simp add: refs_rel_def)
            ultimately show "refines (?st5 @ e6)
               (st_pure (Inr (sr\<lparr>r_items := ni, r_new_users := Some nu, r_new_items := Some ni,
                               r_printed := r_printed sr @ [err]\<rparr>)))
               refs_rel
               (Inr (sp\<lparr>v_items := NI, v_new_users := Some NU, v_new_items := Some NI,
                      printed := printed sp @ [err']\<rparr>))"
              using fresh_at_base[of "?st5 @ e6" ni NI] fresh_at_load[of "?st5 @ e6" ni NI]
              by (intro refines_pure) (simp add: refs_rel_def del: append_assoc)
          qed
        qed
      qed
    qed
  qed
qed

lemma als_loop_st_refines:
  assumes "base ratings < length st" "base ratings_cols < length st"
    and "load st ratings = R" "load st ratings_cols = RC"
    and "refs_rel st sr sp"
  shows "\<exists>new res. als_loop_st pinv ratings ratings_cols n sr st =
            (st @ new, fst (als_loop pinv R RC n sp), res) \<and>
          rel_sum (=) (refs_rel (st @ new)) res (snd (als_loop pinv R RC n sp))"
  using assms
proof (induction n arbitrary: sr sp st)
  case 0
  then show ?case by (simp add: refs_rel_def)
next
  case (Suc n)
  from als_body_st_refines[OF Suc.prems(1,2,5), of pinv] Suc.prems(3,4)
  obtain new r where b: "als_body_st pinv ratings ratings_cols sr st = (st @ new, r)"
    and rr: "rel_sum (=) (refs_rel (st @ new)) r (als_body pinv R RC sp)"
    by (auto simp: refines_def)
  show ?case
  proof (cases "als_body pinv R RC sp")
    case (Inl e)
    with rr have "r = Inl e" by (cases r) auto
    with b Inl Suc.prems(5) show ?thesis by (simp add: refs_rel_def)
  next
    case (Inr sp')
    with rr obtain sr' where r: "r = Inr sr'" and rel': "refs_rel (st @ new) sr' sp'"
      by (cases r) auto
    have "base ratings < length (st @ new)" "base ratings_cols < length (st @ new)"
      "load (st @ new) ratings = R" "load (st @ new) ratings_cols = RC"
      using Suc.prems(1-4) by (simp_all add: load_append)
    from Suc.IH[OF this rel'] obtain new' res where
      "als_loop_st pinv ratings ratings_cols n sr' (st @ new) =
         ((st @ new) @ new', fst (als_loop pinv R RC n sp'), res)"
      "rel_sum (=) (refs_rel ((st @ new) @ new')) res (snd (als_loop pinv R RC n sp'))"
      by blast
    with b r Inr show ?thesis by auto
  qed
qed

lemma als_st_refines:
  assumes r: "base ratings < length st" and nt: "\<not> transposed ratings"
    and i: "base items < length st"
  shows "\<exists>new res. als_st pinv ratings users items reps st =
            (st @ new, fst (als pinv (load st ratings) (load st users) (load st items) reps), res) \<and>
          rel_sum (=) (fresh_at (st @ new)) res
            (snd (als pinv (load st ratings) (load st users) (load st items) reps))"
proof -
  let ?sr = "\<lparr>r_items = items, r_new_users = None, r_new_items = None, r_printed = []\<rparr>"
  let ?sp = "\<lparr>v_items = load st items, v_new_users = None, v_new_items = None, printed = []\<rparr>"
  let ?R = "load st ratings"
  have rc: "base (view_T ratings) < length st" "load st (view_T ratings) = transpose_m ?R"
    using r nt by (simp_all add: view_T_def load_def)
  have rel: "refs_rel st ?sr ?sp"
    using i by (simp add: refs_rel_def)
  from als_loop_st_refines[OF r rc(1) refl rc(2) rel, of pinv "nat reps"]
  obtain new res where
    l: "als_loop_st pinv ratings (view_T ratings) (nat reps) ?sr st =
         (st @ new, fst (als_loop pinv ?R (transpose_m ?R) (nat reps) ?sp), res)"
    and rr: "rel_sum (=) (refs_rel (st @ new)) res (snd (als_loop pinv ?R (transpose_m ?R) (nat reps) ?sp))"
    by blast
  obtain out pres where p: "als_loop pinv ?R (transpose_m ?R) (nat reps) ?sp = (out, pres)"
    by (cases "als_loop pinv ?R (transpose_m ?R) (nat reps) ?sp")
  show ?thesis
  proof (cases pres)
    case (Inl e)
    with rr p have "res = Inl e" by (cases res) auto
    with l p Inl show ?thesis by (simp add: als_st_def als_def)
  next
    case (Inr s)
    with rr p obtain s' where res: "res = Inr s'" and rel': "refs_rel (st @ new) s' s"
      by (cases res) auto
    show ?thesis
    proof (cases "v_new_users s")
      case None
      with rel' have "r_new_users s' = None" by (simp add: refs_rel_def)
      with l p Inr res None show ?thesis by (simp add: als_st_def als_def)
    next
      case (Some NU)
      with rel' obtain nu where nu: "r_new_users s' = Some nu" "fresh_at (st @ new) nu NU"
        by (cases "r_new_users s'") (auto simp: refs_rel_def)
      show ?thesis
      proof (cases "v_new_items s")
        case None
        with rel' have "r_new_items s' = None" by (simp add: refs_rel_def)
        with l p Inr res Some nu None show ?thesis by (simp add: als_st_def als_def)
      next
        case (Some NI)
        with rel' obtain ni where ni: "r_new_items s' = Some ni" "fresh_at (st @ new) ni NI"
          by (cases "r_new_items s'") (auto simp: refs_rel_def)
        from refines_dot_mm[OF fresh_at_load[OF nu(2)] fresh_at_load_T[OF ni(2)]]
        obtain new' r' where
          d: "np_dot_mm nu (view_T ni) (st @ new) = ((st @ new) @ new', r')"
          "rel_sum (=) (fresh_at ((st @ new) @ new')) r' (dot_mm NU (transpose_m NI))"
          by (auto simp: refines_def)
        with l p Inr res \<open>v_new_users s = Some NU\<close> nu Some ni show ?thesis
          by (auto simp: als_st_def als_def)
      qed
    qed
  qed
qed

lemma als_st_value:
  assumes "base ratings < length st" "\<not> transposed ratings" "base items < length st"
    and "als_st pinv ratings users items reps st = (st', out, res)"
  shows "out = fst (als pinv (load st ratings) U (load st items) reps) \<and>
         rel_sum (=) (\<lambda>a A. load st' a = A) res
           (snd (als pinv (load st ratings) U (load st items) reps))"
proof -
  from als_st_refines[OF assms(1-3), of pinv users reps] assms(4)
  obtain new where st': "st' = st @ new"
    and o: "out = fst (als pinv (load st ratings) (load st users) (load st items) reps)"
    and r: "rel_sum (=) (fresh_at st') res
            (snd (als pinv (load st ratings) (load st users) (load st items) reps))"
    by auto
  have u: "als pinv (load st ratings) (load st users) (load st items) reps =
           als pinv (load st ratings) U (load st items) reps"
    by (simp add: als_def)
  have "rel_sum (=) (\<lambda>a A. load st' a = A) res
            (snd (als pinv (load st ratings) (load st users) (load st items) reps))"
    using r by (rule sum.rel_mono_strong) (simp_all add: fresh_at_load)
  with o u show ?thesis by simp
qed

lemmas ev_st = als_st_def als_body_st_def user_sweep_st_def item_sweep_st_def masked_err_st_def
  st_bind_def st_pure_def np_len_def np_row_def np_elem_def np_pinv_def np_dot_mv_def
  np_dot_mm_def np_asarray_def new_array_def load_def view_T_def arr_def store0_def

section \<open>The item sweep and the shape of the result\<close>

text \<open>
  C1 says that the item sweep solves once per item, so that the new item factors have one
  row for each of the \<open>r\<close> columns of the ratings. The second inner loop runs over
  \<^verbatim>\<open>range(len(ratings))\<close>, the number of users. On the 2 users and 5 items of \<open>R5\<close>, with
  the user factors \<open>P5\<close> that the user sweep has just computed, it appends 2 rows and
  stops: items 2, 3 and 4 get no factor row. On the 3 users and 2 items of \<open>R32\<close> it asks
  for \<^verbatim>\<open>ratings_cols[2]\<close> and the run ends in IndexError.
\<close>

theorem item_sweep_runs_over_users:
  "user_sweep pinv_orth R5 Q5 = Inr P5 \<and>
   item_sweep pinv_orth R5 (transpose_m R5) P5 =
     Inr [[0,0,0,0,0,0,0,0,0,0],[0,1/17,0,0,4/17,0,0,0,0,0]] \<and>
   is_matrix 2 5 R5 \<and>
   als pinv_orth R32 users I2 1 = ([], Inl IndexError) \<and> is_matrix 3 2 R32"
  by (simp add: ev R5_def Q5_def P5_def R32_def I2_def)

text \<open>
  C2 says that the reconstruction has the shape of the ratings after every iteration, also
  when the numbers of users and items differ. For the 2 users and 3 items of \<open>R23\<close> and a
  3 by 2 initial item matrix the first iteration completes, prints 0, and its
  reconstruction \<^verbatim>\<open>new_users.dot(new_items.T)\<close> is 2 by 2.
\<close>

theorem reconstruction_2x2_for_2x3:
  "als_body pinv_orth R23 (transpose_m R23)
     \<lparr>v_items = Q23, v_new_users = None, v_new_items = None, printed = []\<rparr> =
   Inr \<lparr>v_items = I2, v_new_users = Some I2, v_new_items = Some I2, printed = [0]\<rparr> \<and>
   dot_mm I2 (transpose_m I2) = Inr [[1,0],[0,1]] \<and> is_matrix 2 3 R23"
  by (simp add: ev R23_def Q23_def I2_def)

text \<open>
  C3 says that the function returns, after \<open>T\<close> iterations, a matrix with a prediction for
  every pair of a user and an item. For the 2 by 3 ratings \<open>R23\<close> and one iteration it
  returns a 2 by 2 matrix, with no entry for the third item, whatever \<open>users\<close> is; with two
  iterations the second user sweep raises ValueError.
\<close>

theorem returns_2x2_for_2x3:
  "als pinv_orth R23 users Q23 1 = ([0], Inr [[1,0],[0,1]]) \<and> is_matrix 2 3 R23 \<and>
   als pinv_orth R23 users Q23 2 = ([0], Inl ValueError)"
  by (simp add: ev2 R23_def Q23_def)

text \<open>
  C4 is the scenario of the specification: the ratings \<open>[[0,1,0,0,4],[0,0,0,5,0]]\<close> and one
  iteration must give a 2 by 5 reconstruction and a masked error. For every \<open>pinv\<close>, every
  \<open>users\<close> and every initial \<open>items\<close> the run ends in an exception before anything is
  printed, and with the pseudo-inverse and the 5 by 10 matrix \<open>Q5\<close> the exception is the
  IndexError of \<^verbatim>\<open>guess[0, 4]\<close> on a reconstruction with 2 columns.
\<close>

theorem scenario_2x5_raises:
  "(\<exists>e. als pinv R5 users items 1 = ([], Inl e)) \<and>
   als pinv_orth R5 users Q5 1 = ([], Inl IndexError)"
proof
  let ?s0 = "\<lparr>v_items = items, v_new_users = None, v_new_items = None, printed = []\<rparr>"
  have "\<exists>e. als_body pinv R5 (transpose_m R5) ?s0 = Inl e"
  proof (cases "als_body pinv R5 (transpose_m R5) ?s0")
    case (Inl e)
    then show ?thesis by blast
  next
    case (Inr s')
    from als_body_Inr[OF Inr] obtain nu ni guess e where
      ni: "item_sweep pinv R5 (transpose_m R5) nu = Inr ni" and
      g: "dot_mm nu (transpose_m ni) = Inr guess" and e: "masked_err R5 guess = Inr e"
      by auto
    have "length ni = 2" using ni by (simp add: item_sweep_Inr_nth R5_def)
    moreover have "0 < length guess \<and> 4 < length (guess ! 0)"
    proof -
      from e have "\<forall>i<length R5. \<forall>j<length (R5 ! i).
         R5 ! i ! j \<noteq> 0 \<longrightarrow> i < length guess \<and> j < length (guess ! i)"
        by (simp add: masked_err_Inr_iff)
      then have "0 < length R5 \<longrightarrow> 4 < length (R5 ! 0) \<longrightarrow> R5 ! 0 ! 4 \<noteq> 0 \<longrightarrow>
          0 < length guess \<and> 4 < length (guess ! 0)"
        by blast
      then show ?thesis by (simp add: R5_def)
    qed
    ultimately show ?thesis
      using dot_mm_row_length[OF g, of 0] ncols_transpose_le[of ni] by simp
  qed
  then show "\<exists>e. als pinv R5 users items 1 = ([], Inl e)"
    by (auto simp: als_def)
next
  show "als pinv_orth R5 users Q5 1 = ([], Inl IndexError)"
    by (simp add: ev R5_def Q5_def)
qed

section \<open>The user sweep\<close>

text \<open>
  C5. When the ratings are \<open>m\<close> by \<open>r\<close> and \<open>pinv items\<close> is \<open>k\<close> by \<open>r\<close> (the check that
  \<^verbatim>\<open>dot\<close> makes), the user sweep returns an \<open>m\<close> by \<open>k\<close> matrix \<open>P'\<close> whose row \<open>i\<close> is
  \<^verbatim>\<open>pinv(items).dot(ratings[i])\<close> for every user \<open>i\<close>: entry \<open>l\<close> of it is the sum over all
  \<open>r\<close> columns \<open>j\<close>, the sentinel zeros among them, of
  \<open>pinv items ! l ! j * ratings ! i ! j\<close>. Every iteration that starts with \<open>items\<close> as the
  current item factors is this sweep followed by the rest of the loop body run on \<open>P'\<close>: the
  item sweep inverts \<open>P'\<close>, the reconstruction multiplies \<open>P'\<close>, and \<open>P'\<close> is bound to
  \<^verbatim>\<open>new_users\<close>, whether or not the iteration then completes.
\<close>

theorem user_sweep_fits_raw_rows:
  assumes R: "is_matrix m r ratings" and X: "is_matrix k r (pinv items)"
  shows "\<exists>P'. user_sweep pinv ratings items = Inr P' \<and> is_matrix m k P' \<and>
           (\<forall>i<m. dot_mv (pinv items) (ratings ! i) = Inr (P' ! i)) \<and>
           (\<forall>i<m. \<forall>l<k. P' ! i ! l = (\<Sum>j<r. pinv items ! l ! j * ratings ! i ! j)) \<and>
           (\<forall>s. v_items s = items \<longrightarrow>
              als_body pinv ratings ratings_cols s =
                bind_err (item_sweep pinv ratings ratings_cols P') (\<lambda>is.
                bind_err (asarray is) (\<lambda>ni.
                bind_err (dot_mm P' (transpose_m ni)) (\<lambda>guess.
                bind_err (masked_err ratings guess) (\<lambda>err.
                Inr (s\<lparr>v_items := ni, v_new_users := Some P', v_new_items := Some ni,
                        printed := printed s @ [err]\<rparr>)))))) \<and>
           (\<forall>s s'. v_items s = items \<and> als_body pinv ratings ratings_cols s = Inr s'
                \<longrightarrow> v_new_users s' = Some P')"
proof -
  define P' where "P' = map (\<lambda>row. map (\<lambda>xrow. vdot xrow row) (pinv items)) ratings"
  have len: "length ratings = m" using R by (simp add: is_matrix_def)
  have rows: "\<And>i. i < m \<Longrightarrow> length (ratings ! i) = r" using R by (rule is_matrix_nth)
  have xlen: "length (pinv items) = k" using X by (simp add: is_matrix_def)
  have xrows: "list_all (\<lambda>xrow. length xrow = r) (pinv items)" using X by (simp add: is_matrix_def)
  have sweep: "user_sweep pinv ratings items = Inr P'"
    unfolding P'_def using R X by (rule user_sweep_rows)
  have shape: "is_matrix m k P'"
    using len xlen by (simp add: is_matrix_iff P'_def)
  have dot: "dot_mv (pinv items) (ratings ! i) = Inr (P' ! i)" if "i < m" for i
    using that len rows[OF that] xrows by (simp add: dot_mv_def P'_def)
  have entry: "P' ! i ! l = (\<Sum>j<r. pinv items ! l ! j * ratings ! i ! j)" if "i < m" "l < k" for i l
  proof -
    have "length (pinv items ! l) = r" using X that(2) by (rule is_matrix_nth)
    then have "vdot (pinv items ! l) (ratings ! i) = (\<Sum>j<r. pinv items ! l ! j * ratings ! i ! j)"
      using rows[OF that(1)] vdot_sum[of "pinv items ! l" "ratings ! i"] by simp
    then show ?thesis using that len xlen by (simp add: P'_def)
  qed
  have rest: "als_body pinv ratings ratings_cols s =
                bind_err (item_sweep pinv ratings ratings_cols P') (\<lambda>is.
                bind_err (asarray is) (\<lambda>ni.
                bind_err (dot_mm P' (transpose_m ni)) (\<lambda>guess.
                bind_err (masked_err ratings guess) (\<lambda>err.
                Inr (s\<lparr>v_items := ni, v_new_users := Some P', v_new_items := Some ni,
                        printed := printed s @ [err]\<rparr>)))))"
    if "v_items s = items" for s
    using that sweep asarray_is_matrix[OF shape] by (simp add: als_body_def)
  have body: "v_new_users s' = Some P'"
    if "v_items s = items \<and> als_body pinv ratings ratings_cols s = Inr s'" for s s'
    using that sweep als_body_new_users by blast
  show ?thesis
    using sweep shape dot entry rest body by blast
qed

text \<open>The theorem at the ratings \<open>R2\<close> and the item factors \<open>Q2b\<close>, where the iteration
  completes: the sweep gives \<open>[[0],[2]]\<close>, different from the item factors, and the
  iteration ends with it as \<^verbatim>\<open>new_users\<close> after printing 1. At the ratings \<open>R5\<close> and
  the item factors \<open>Q5\<close> the hypotheses hold as well, and the two user rows are the two
  rating rows, zeros included, padded to 10 entries.\<close>

theorem user_sweep_fits_raw_rows_witness:
  "is_matrix 2 5 R5 \<and> is_matrix 10 5 (pinv_orth Q5) \<and>
   user_sweep pinv_orth R5 Q5 = Inr [[0,1,0,0,4,0,0,0,0,0],[0,0,0,5,0,0,0,0,0,0]] \<and>
   is_matrix 2 2 R2 \<and> is_matrix 1 2 (pinv_orth Q2b) \<and>
   user_sweep pinv_orth R2 Q2b = Inr [[0],[2]] \<and>
   als_body pinv_orth R2 (transpose_m R2)
     \<lparr>v_items = Q2b, v_new_users = None, v_new_items = None, printed = []\<rparr> =
   Inr \<lparr>v_items = [[0],[1]], v_new_users = Some [[0],[2]], v_new_items = Some [[0],[1]],
         printed = [1]\<rparr>"
proof -
  let ?s0 = "\<lparr>v_items = Q2b, v_new_users = None, v_new_items = None, printed = []\<rparr>"
  have R5: "is_matrix 2 5 R5" by (simp add: is_matrix_def R5_def)
  have X5: "is_matrix 10 5 (pinv_orth Q5)" by (simp add: ev Q5_def)
  have R: "is_matrix 2 2 R2" by (simp add: is_matrix_def R2_def)
  have X: "is_matrix 1 2 (pinv_orth Q2b)" by (simp add: ev Q2b_def)
  have v5: "user_sweep pinv_orth R5 Q5 = Inr [[0,1,0,0,4,0,0,0,0,0],[0,0,0,5,0,0,0,0,0,0]]"
    by (simp add: ev R5_def Q5_def)
  from user_sweep_fits_raw_rows[where pinv = pinv_orth and items = Q2b and ratings_cols = "transpose_m R2", OF R X]
  obtain P' where p: "user_sweep pinv_orth R2 Q2b = Inr P'"
    and b: "\<forall>s. v_items s = Q2b \<longrightarrow>
              als_body pinv_orth R2 (transpose_m R2) s =
                bind_err (item_sweep pinv_orth R2 (transpose_m R2) P') (\<lambda>is.
                bind_err (asarray is) (\<lambda>ni.
                bind_err (dot_mm P' (transpose_m ni)) (\<lambda>guess.
                bind_err (masked_err R2 guess) (\<lambda>err.
                Inr (s\<lparr>v_items := ni, v_new_users := Some P', v_new_items := Some ni,
                        printed := printed s @ [err]\<rparr>)))))"
    by blast
  have v: "user_sweep pinv_orth R2 Q2b = Inr [[0],[2]]"
    by (simp add: ev R2_def Q2b_def)
  with p have P': "P' = [[0],[2]]" by simp
  from b have "als_body pinv_orth R2 (transpose_m R2) ?s0 =
                bind_err (item_sweep pinv_orth R2 (transpose_m R2) P') (\<lambda>is.
                bind_err (asarray is) (\<lambda>ni.
                bind_err (dot_mm P' (transpose_m ni)) (\<lambda>guess.
                bind_err (masked_err R2 guess) (\<lambda>err.
                Inr (?s0\<lparr>v_items := ni, v_new_users := Some P', v_new_items := Some ni,
                        printed := printed ?s0 @ [err]\<rparr>)))))"
    by simp
  also have "\<dots> = Inr \<lparr>v_items = [[0],[1]], v_new_users = Some [[0],[2]],
                      v_new_items = Some [[0],[1]], printed = [1]\<rparr>"
    unfolding P' by (simp add: ev R2_def)
  finally show ?thesis
    using R5 X5 v5 R X v by simp
qed

text \<open>
  In the arithmetic of the reals a user who has rated nothing gets the factor row of \<open>k\<close>
  zeros: the solve is a sum of products with the zeros of the rating row. Whether the
  floating-point \<^verbatim>\<open>np.linalg.pinv\<close> can return an infinite or undefined entry, whose
  product with zero would be undefined, is a question about numpy that this model, with
  real numbers and \<open>pinv\<close> as a parameter, does not pose.
\<close>

lemma zero_row_zero_factor:
  assumes R: "is_matrix m r ratings" and X: "is_matrix k r (pinv items)"
    and i: "i < m" and z: "list_all (\<lambda>x. x = 0) (ratings ! i)"
  shows "\<exists>P'. user_sweep pinv ratings items = Inr P' \<and> is_matrix m k P' \<and>
           P' ! i = replicate k 0"
proof -
  define P' where "P' = map (\<lambda>row. map (\<lambda>xrow. vdot xrow row) (pinv items)) ratings"
  have len: "length ratings = m" using R by (simp add: is_matrix_def)
  have xlen: "length (pinv items) = k" using X by (simp add: is_matrix_def)
  have sweep: "user_sweep pinv ratings items = Inr P'"
    unfolding P'_def using R X by (rule user_sweep_rows)
  have shape: "is_matrix m k P'"
    using len xlen by (simp add: is_matrix_iff P'_def)
  have "P' ! i = map (\<lambda>xrow. vdot xrow (ratings ! i)) (pinv items)"
    using i len by (simp add: P'_def)
  also have "\<dots> = map (\<lambda>xrow. 0) (pinv items)"
    using z by (simp add: vdot_zero)
  also have "\<dots> = replicate k 0"
    using xlen by (simp add: map_replicate_const)
  finally show ?thesis using sweep shape by blast
qed

section \<open>The reported error\<close>

text \<open>
  C6. An iteration that completes prints the sum, over exactly the positions \<open>(i, j)\<close> with
  \<open>ratings ! i ! j \<noteq> 0\<close>, of the square of \<open>ratings ! i ! j - guess ! i ! j\<close>, where
  \<open>guess\<close> is the reconstruction \<^verbatim>\<open>new_users.dot(new_items.T)\<close> of that iteration. A
  position that is not observed contributes nothing: putting any value \<open>v\<close> at it in
  \<open>guess\<close> leaves the result of the error loops unchanged.
\<close>

theorem reported_error_is_masked_sum:
  assumes "als_body pinv ratings ratings_cols s = Inr s'"
  shows "\<exists>nu ni guess.
           v_new_users s' = Some nu \<and> v_new_items s' = Some ni \<and>
           dot_mm nu (transpose_m ni) = Inr guess \<and>
           printed s' = printed s @ [(\<Sum>(i, j)\<in>observed ratings. (ratings ! i ! j - guess ! i ! j)\<^sup>2)] \<and>
           (\<forall>i j v. (i, j) \<notin> observed ratings \<longrightarrow>
              masked_err ratings (guess[i := (guess ! i)[j := v]]) = masked_err ratings guess)"
proof -
  from als_body_Inr[OF assms] obtain nu ni guess e where
    g: "dot_mm nu (transpose_m ni) = Inr guess" and e: "masked_err ratings guess = Inr e" and
    s': "s' = s\<lparr>v_items := ni, v_new_users := Some nu, v_new_items := Some ni, printed := printed s @ [e]\<rparr>"
    by blast
  from e have "e = (\<Sum>(i, j)\<in>observed ratings. (ratings ! i ! j - guess ! i ! j)\<^sup>2)"
    by (simp add: masked_err_Inr_iff masked_sum_observed)
  with g s' masked_err_update show ?thesis
    by auto
qed

text \<open>The theorem at the ratings \<open>R2\<close> with one latent feature: the iteration prints 4, the
  squared error at the observed position \<open>(1, 1)\<close>, and a 7 at the unobserved position
  \<open>(0, 1)\<close> of the reconstruction changes nothing.\<close>

theorem reported_error_is_masked_sum_witness:
  "als_body pinv_orth R2 (transpose_m R2)
     \<lparr>v_items = Q2, v_new_users = None, v_new_items = None, printed = []\<rparr> =
   Inr \<lparr>v_items = Q2, v_new_users = Some Q2, v_new_items = Some Q2, printed = [4]\<rparr> \<and>
   dot_mm Q2 (transpose_m Q2) = Inr [[1,0],[0,0]] \<and>
   (\<Sum>(i, j)\<in>observed R2. (R2 ! i ! j - [[1,0],[0,0]] ! i ! j)\<^sup>2) = 4 \<and>
   masked_err R2 [[1,7],[0,0]] = masked_err R2 [[1,0],[0,0]]"
proof -
  let ?s0 = "\<lparr>v_items = Q2, v_new_users = None, v_new_items = None, printed = []\<rparr>"
  let ?s1 = "\<lparr>v_items = Q2, v_new_users = Some Q2, v_new_items = Some Q2, printed = [4]\<rparr>"
  have h: "als_body pinv_orth R2 (transpose_m R2) ?s0 = Inr ?s1"
    by (simp add: ev R2_def Q2_def)
  have g: "dot_mm Q2 (transpose_m Q2) = Inr [[1,0],[0,0]]"
    by (simp add: ev Q2_def)
  have o: "(0, 1) \<notin> observed R2" by (simp add: observed_def R2_def)
  from reported_error_is_masked_sum[OF h] g
  have s: "[4] = [(\<Sum>(i, j)\<in>observed R2. (R2 ! i ! j - [[1,0],[0,0]] ! i ! j)\<^sup>2)]"
    and u: "\<forall>i j v. (i, j) \<notin> observed R2 \<longrightarrow>
      masked_err R2 ([[1,0],[0,0]][i := ([[1,0],[0,0]] ! i)[j := v]]) = masked_err R2 [[1,0],[0,0]]"
    by auto
  from u o have "masked_err R2 ([[1,0],[0,0]][0 := ([[1,0],[0,0]] ! 0)[1 := 7]]) = masked_err R2 [[1,0],[0,0]]"
    by blast
  then have "masked_err R2 [[1,7],[0,0]] = masked_err R2 [[1,0],[0,0]]"
    by simp
  with s h g show ?thesis by simp
qed

section \<open>The ratings are not written\<close>

text \<open>
  C9. Whatever \<open>als\<close> does on a store that holds the buffer of \<open>ratings\<close> (any number of
  iterations, a returned array or an exception), every buffer of the store it started
  with is afterwards what it was before; so the ratings read through \<open>ratings\<close> and
  through its transposed view \<^verbatim>\<open>ratings.T\<close> are the same before and after the run.
\<close>

theorem als_leaves_ratings_unchanged:
  assumes "als_st pinv ratings users items reps st = (st', out, res)"
    and "base ratings < length st"
  shows "list_all (\<lambda>a. st' ! a = st ! a) [0..<length st] \<and>
         load st' ratings = load st ratings \<and>
         load st' (view_T ratings) = load st (view_T ratings)"
proof -
  from als_st_extends[of pinv ratings users items reps st] assms(1)
  obtain new where "st' = st @ new" by auto
  with assms(2) show ?thesis
    by (simp add: list_all_iff nth_append load_append load_view_T_append)
qed

text \<open>The theorem at the store \<open>store0\<close> and one iteration: eight buffers are allocated and
  the ratings at address 0 are still \<open>R2\<close>.\<close>

theorem als_leaves_ratings_unchanged_witness:
  "als_st pinv_orth (arr 0) (arr 1) (arr 2) 1 store0 =
     (store0 @ [[[1,0]], [[1,0]], Q2, [[1,0]], [[1,0]], Q2, [[1,0],[0,0]], [[1,0],[0,0]]],
      [4], Inr (arr 10)) \<and>
   base (arr 0) < length store0 \<and>
   load (store0 @ [[[1,0]], [[1,0]], Q2, [[1,0]], [[1,0]], Q2, [[1,0],[0,0]], [[1,0],[0,0]]]) (arr 0) = R2 \<and>
   load (store0 @ [[[1,0]], [[1,0]], Q2, [[1,0]], [[1,0]], Q2, [[1,0],[0,0]], [[1,0],[0,0]]])
     (view_T (arr 0)) = transpose_m R2"
proof -
  have h: "als_st pinv_orth (arr 0) (arr 1) (arr 2) 1 store0 =
     (store0 @ [[[1,0]], [[1,0]], Q2, [[1,0]], [[1,0]], Q2, [[1,0],[0,0]], [[1,0],[0,0]]],
      [4], Inr (arr 10))"
    by (simp add: ev_st ev R2_def I2_def Q2_def)
  have b: "base (arr 0) < length store0"
    by (simp add: arr_def store0_def)
  have l: "load store0 (arr 0) = R2" "load store0 (view_T (arr 0)) = transpose_m R2"
    by (simp_all add: load_def view_T_def arr_def store0_def)
  from als_leaves_ratings_unchanged[OF h b] l h b show ?thesis
    by simp
qed

section \<open>Two runs on the same inputs\<close>

text \<open>
  C8. Two runs of \<open>als\<close> with the same \<open>pinv\<close> and the same number of iterations, from any
  two stores in which the ratings arrays hold the same matrix and the item-factor arrays
  hold the same matrix, print the same errors and end alike: in the same exception, or
  with returned arrays that hold the same matrix. Nothing else in the stores, not the
  addresses of the arrays and not even the user factors, has an influence. The arithmetic
  is that of the reals and \<open>pinv\<close> is one function for both runs: this is the fixed
  numeric environment.
\<close>

theorem als_runs_agree:
  assumes "base ratings1 < length st1" "\<not> transposed ratings1" "base items1 < length st1"
    and "base ratings2 < length st2" "\<not> transposed ratings2" "base items2 < length st2"
    and "load st1 ratings1 = load st2 ratings2" "load st1 items1 = load st2 items2"
    and "als_st pinv ratings1 users1 items1 reps st1 = (st1', out1, res1)"
    and "als_st pinv ratings2 users2 items2 reps st2 = (st2', out2, res2)"
  shows "out1 = out2 \<and> rel_sum (=) (\<lambda>a b. load st1' a = load st2' b) res1 res2"
proof -
  let ?p = "als pinv (load st1 ratings1) [] (load st1 items1) reps"
  from als_st_value[OF assms(1-3) assms(9), of "[]"]
  have o1: "out1 = fst ?p" and r1: "rel_sum (=) (\<lambda>a A. load st1' a = A) res1 (snd ?p)"
    by simp_all
  from als_st_value[OF assms(4-6) assms(10), of "[]"] assms(7,8)
  have o2: "out2 = fst ?p" and r2: "rel_sum (=) (\<lambda>a A. load st2' a = A) res2 (snd ?p)"
    by simp_all
  have "rel_sum (=) (\<lambda>a b. load st1' a = load st2' b) res1 res2"
    using r1 r2 by (cases res1; cases res2; cases "snd ?p") auto
  with o1 o2 show ?thesis by simp
qed

text \<open>The theorem at \<open>store0\<close> and \<open>store1\<close>: both runs print 4 and return an array
  holding \<open>[[1,0],[0,0]]\<close>, at address 10 in one store and 11 in the other.\<close>

theorem als_runs_agree_witness:
  "base (arr 0) < length store0 \<and> \<not> transposed (arr 0) \<and> base (arr 2) < length store0 \<and>
   base (arr 3) < length store1 \<and> \<not> transposed (arr 3) \<and> base (arr 0) < length store1 \<and>
   load store0 (arr 0) = load store1 (arr 3) \<and> load store0 (arr 2) = load store1 (arr 0) \<and>
   als_st pinv_orth (arr 0) (arr 1) (arr 2) 1 store0 =
     (store0 @ [[[1,0]], [[1,0]], Q2, [[1,0]], [[1,0]], Q2, [[1,0],[0,0]], [[1,0],[0,0]]],
      [4], Inr (arr 10)) \<and>
   als_st pinv_orth (arr 3) (arr 1) (arr 0) 1 store1 =
     (store1 @ [[[1,0]], [[1,0]], Q2, [[1,0]], [[1,0]], Q2, [[1,0],[0,0]], [[1,0],[0,0]]],
      [4], Inr (arr 11)) \<and>
   load (store0 @ [[[1,0]], [[1,0]], Q2, [[1,0]], [[1,0]], Q2, [[1,0],[0,0]], [[1,0],[0,0]]]) (arr 10) =
   load (store1 @ [[[1,0]], [[1,0]], Q2, [[1,0]], [[1,0]], Q2, [[1,0],[0,0]], [[1,0],[0,0]]]) (arr 11)"
proof -
  let ?new = "[[[1,0]], [[1,0]], Q2, [[1,0]], [[1,0]], Q2, [[1,0],[0,0]], [[1,0],[0,0]]]"
  have v: "base (arr 0) < length store0" "\<not> transposed (arr 0)" "base (arr 2) < length store0"
    "base (arr 3) < length store1" "\<not> transposed (arr 3)" "base (arr 0) < length store1"
    by (simp_all add: arr_def store0_def store1_def)
  have l: "load store0 (arr 0) = load store1 (arr 3)" "load store0 (arr 2) = load store1 (arr 0)"
    by (simp_all add: load_def arr_def store0_def store1_def)
  have h1: "als_st pinv_orth (arr 0) (arr 1) (arr 2) 1 store0 = (store0 @ ?new, [4], Inr (arr 10))"
    by (simp add: ev_st ev R2_def I2_def Q2_def)
  have h2: "als_st pinv_orth (arr 3) (arr 1) (arr 0) 1 store1 = (store1 @ ?new, [4], Inr (arr 11))"
    by (simp add: ev_st ev store1_def R2_def I2_def Q2_def)
  from als_runs_agree[OF v l h1 h2] v l h1 h2 show ?thesis
    by simp
qed

section \<open>The initial user factors are never read\<close>

text \<open>
  C7. The result of \<open>als\<close>, that is the printed per-iteration errors and the returned
  prediction matrix (or the exception), is the same for any two values of the \<open>users\<close>
  argument, of any shape, when the ratings, the initial item factors and the number of
  iterations are the same.
\<close>

theorem als_ignores_users:
  "als pinv ratings users items reps = als pinv ratings users' items reps"
  by (simp add: als_def)

end
